theory Spec2Isabelle
  imports Main "HOL-Library.Word"
begin

section \<open>Machine integers\<close>

text \<open>
  The archive code of \<^verbatim>\<open>mfu_flist_archive.c\<close> computes with \<^verbatim>\<open>uint64_t\<close>
  throughout: arithmetic wraps modulo \<open>2 ^ 64\<close>.  A C \<^verbatim>\<open>int\<close> (the MPI rank and the
  number of ranks) that meets a \<^verbatim>\<open>uint64_t\<close> in an expression is converted to
  \<^verbatim>\<open>uint64_t\<close> first, which is \<open>word_of_int\<close>.
\<close>

type_synonym uint64_t = "64 word"

section \<open>Work items and their textual form\<close>

text \<open>
  A C \<^verbatim>\<open>int\<close> is a 32-bit word read through \<open>sint\<close>.  The enumeration
  \<^verbatim>\<open>DTAR_operation_code_t\<close> has the single enumerator \<^verbatim>\<open>COPY_DATA\<close> (value 0); an
  object of that type is stored as an \<^verbatim>\<open>int\<close>, and the decoder fills it through an
  \<^verbatim>\<open>int*\<close>, so the field can hold any \<^verbatim>\<open>int\<close>.
\<close>

type_synonym c_int = "32 word"

type_synonym DTAR_operation_code_t = c_int

definition COPY_DATA :: DTAR_operation_code_t where
  "COPY_DATA = 0"

record DTAR_operation_t =
  file_size :: uint64_t
  chunk_index :: uint64_t
  offset :: uint64_t
  code :: DTAR_operation_code_t
  operand :: string

text \<open>
  How a call can end without a result: \<^verbatim>\<open>DTAR_abort(EXIT_FAILURE)\<close>, or a trap of the
  machine (a null pointer handed to \<^verbatim>\<open>sscanf\<close>, a store outside the buffer, a division
  by zero).
\<close>

datatype failure = Abort | Trap

subsection \<open>The C library's formatting and scanning of integers\<close>

text \<open>
  \<^verbatim>\<open>snprintf\<close> with \<^verbatim>\<open>%"PRIu64"\<close> writes the decimal digits of an unsigned value, and
  with \<^verbatim>\<open>%d\<close> those of a signed one, a minus sign first when it is negative.
\<close>

definition digit_char :: "nat \<Rightarrow> char" where
  "digit_char d = char_of (48 + d)"

fun decimal :: "nat \<Rightarrow> string" where
  "decimal n = (if n < 10 then [digit_char n] else decimal (n div 10) @ [digit_char (n mod 10)])"

definition printf_u64 :: "uint64_t \<Rightarrow> string" where
  "printf_u64 w = decimal (unat w)"

definition printf_d :: "c_int \<Rightarrow> string" where
  "printf_d w = (if sint w < 0 then CHR ''-'' # decimal (nat (- sint w)) else decimal (nat (sint w)))"

text \<open>
  \<^verbatim>\<open>sscanf\<close> with one integer conversion skips white space, takes an optional sign and
  then the longest run of decimal digits; without a digit nothing is converted (the
  call does not return 1).  \<open>scan_integer\<close> gives the sign and the magnitude read.
  The conversions are those of \<^verbatim>\<open>strtoul\<close> and \<^verbatim>\<open>strtol\<close> on 64-bit integers:
  \<^verbatim>\<open>"%" SCNu64\<close> gives \<open>2 ^ 64 - 1\<close> for a magnitude that does not fit and otherwise
  the magnitude, negated in the word when there is a minus sign; \<^verbatim>\<open>"%d"\<close> converts
  to a \<^verbatim>\<open>long\<close>, where a value out of range becomes the nearest bound, and stores
  the low 32 bits.
\<close>

definition isspace :: "char \<Rightarrow> bool" where
  "isspace c = ((of_char c :: nat) = 32 \<or> (9 \<le> (of_char c :: nat) \<and> (of_char c :: nat) \<le> 13))"

definition isdigit :: "char \<Rightarrow> bool" where
  "isdigit c = (48 \<le> (of_char c :: nat) \<and> (of_char c :: nat) \<le> 57)"

definition digits_value :: "string \<Rightarrow> nat" where
  "digits_value ds = foldl (\<lambda>acc c. 10 * acc + ((of_char c :: nat) - 48)) 0 ds"

definition scan_integer :: "string \<Rightarrow> (bool \<times> nat) option" where
  "scan_integer s =
     (let s1 = dropWhile isspace s;
          neg = (case s1 of [] \<Rightarrow> False | c # _ \<Rightarrow> c = CHR ''-'');
          s2 = (case s1 of [] \<Rightarrow> [] | c # r \<Rightarrow> if c = CHR ''-'' \<or> c = CHR ''+'' then r else s1);
          ds = takeWhile isdigit s2
      in if ds = [] then None else Some (neg, digits_value ds))"

definition sscanf_u64 :: "string \<Rightarrow> uint64_t option" where
  "sscanf_u64 s =
     (case scan_integer s of None \<Rightarrow> None
      | Some (neg, n) \<Rightarrow>
          Some (if 2 ^ 64 \<le> n then - 1 else if neg then - of_nat n else of_nat n))"

definition strtol :: "bool \<Rightarrow> nat \<Rightarrow> int" where
  "strtol neg n = (if neg then - int (min n (2 ^ 63)) else int (min n (2 ^ 63 - 1)))"

definition sscanf_d :: "string \<Rightarrow> c_int option" where
  "sscanf_d s =
     (case scan_integer s of None \<Rightarrow> None
      | Some (neg, n) \<Rightarrow> Some (word_of_int (strtol neg n)))"

text \<open>
  \<^verbatim>\<open>strtok(s, ":")\<close> on the characters \<open>s\<close> that remain before the terminating NUL:
  it skips leading delimiters and returns a null pointer (\<open>None\<close>) when nothing is
  left; otherwise the token runs to the next delimiter or to the end.  The second
  component is what follows the token, its delimiter included if there is one: the
  delimiter is overwritten with NUL and the next call resumes one character later.
\<close>

definition strtok :: "string \<Rightarrow> (string \<times> string) option" where
  "strtok s =
     (let s1 = dropWhile (\<lambda>c. c = CHR '':'') s
      in if s1 = [] then None
         else Some (takeWhile (\<lambda>c. c \<noteq> CHR '':'') s1, dropWhile (\<lambda>c. c \<noteq> CHR '':'') s1))"

subsection \<open>\<^verbatim>\<open>DTAR_encode_operation\<close> and \<^verbatim>\<open>DTAR_decode_operation\<close>\<close>

text \<open>
  \<^verbatim>\<open>
    size_t opsize = (size_t) CIRCLE_MAX_STRING_LEN;
    size_t len = strlen(operand);
    int written = snprintf(op, opsize, "%" PRIu64 ":%" PRIu64 ":%" PRIu64 ":%d:%d:%s",
                           fsize, chunk_idx, offset, code, (int) len, operand);
    if (written >= opsize) { ...; DTAR_abort(EXIT_FAILURE); }
    return op;
  \<close>
  \<^verbatim>\<open>CIRCLE_MAX_STRING_LEN\<close> is a constant of the work-stealing library; it is the
  parameter \<open>max_string_len\<close>.  \<^verbatim>\<open>snprintf\<close> returns the length of the full text.
\<close>

definition operation_text :: "DTAR_operation_code_t \<Rightarrow> string \<Rightarrow> uint64_t \<Rightarrow> uint64_t \<Rightarrow> uint64_t \<Rightarrow> string" where
  "operation_text cd opnd fsize chunk_idx offs =
     printf_u64 fsize @ '':'' @ printf_u64 chunk_idx @ '':'' @ printf_u64 offs @ '':''
       @ printf_d cd @ '':'' @ printf_d (of_nat (length opnd)) @ '':'' @ opnd"

definition DTAR_encode_operation ::
  "nat \<Rightarrow> DTAR_operation_code_t \<Rightarrow> string \<Rightarrow> uint64_t \<Rightarrow> uint64_t \<Rightarrow> uint64_t \<Rightarrow> failure + string" where
  "DTAR_encode_operation max_string_len cd opnd fsize chunk_idx offs =
     (let written = length (operation_text cd opnd fsize chunk_idx offs)
      in if written \<ge> max_string_len then Inl Abort
         else Inr (operation_text cd opnd fsize chunk_idx offs))"

text \<open>
  The decoder: four fields through \<^verbatim>\<open>sscanf(strtok(...))\<close>, then the length field.
  \<open>next_field\<close> is one \<^verbatim>\<open>strtok\<close> call: a null pointer handed to \<^verbatim>\<open>sscanf\<close> traps.
  The saved position of \<^verbatim>\<open>strtok\<close> is threaded through the calls explicitly.
\<close>

definition next_field :: "string \<Rightarrow> failure + (string \<times> string)" where
  "next_field s = (case strtok s of None \<Rightarrow> Inl Trap | Some p \<Rightarrow> Inr p)"

text \<open>Sequencing of steps that can fail: the first failure ends the call.\<close>

definition and_then :: "failure + 'a \<Rightarrow> ('a \<Rightarrow> failure + 'b) \<Rightarrow> failure + 'b" where
  "and_then m f = (case m of Inl e \<Rightarrow> Inl e | Inr x \<Rightarrow> f x)"

text \<open>
  \<^verbatim>\<open>if (sscanf(strtok(..., ":"), "%" SCNu64, &field) != 1) { ...; DTAR_abort(EXIT_FAILURE); }\<close>
  and the same with \<^verbatim>\<open>"%d"\<close>: the value read, and what follows the token.
\<close>

definition field_u64 :: "string \<Rightarrow> failure + (uint64_t \<times> string)" where
  "field_u64 s =
     and_then (next_field s)
       (\<lambda>(t, r). case sscanf_u64 t of None \<Rightarrow> Inl Abort | Some v \<Rightarrow> Inr (v, r))"

definition field_d :: "string \<Rightarrow> failure + (c_int \<times> string)" where
  "field_d s =
     and_then (next_field s)
       (\<lambda>(t, r). case sscanf_d t of None \<Rightarrow> Inl Abort | Some v \<Rightarrow> Inr (v, r))"

text \<open>
  \<^verbatim>\<open>
    char* operand = str + strlen(str) + 1;
    operand[op_len] = '\0';
    ret->operand = operand;
  \<close>
  The string \<open>op\<close> lies at the start of a buffer, followed by its terminating NUL and
  then by the bytes \<open>spare\<close> that the buffer has beyond it.  \<open>r5\<close> is what follows the
  length token in \<open>op\<close>, so the operand starts at index \<open>length op + 1 - length r5\<close> of
  the buffer: after the delimiter of the token, or, when the token ends the string,
  after the terminator, in the spare bytes.  The NUL is stored \<open>op_len\<close> bytes from
  there; outside the buffer that is a trap.  A store at or after the terminator of the
  string leaves the operand as it is, and so does a store before the operand (a
  negative length).  An operand in the spare bytes ends at their first NUL; without
  one it has no end within the buffer, a trap.
\<close>

definition NUL :: char where
  "NUL = CHR 0x00"

definition c_string :: "string \<Rightarrow> string" where
  "c_string memory = takeWhile (\<lambda>c. c \<noteq> NUL) memory"

definition terminate_operand :: "string \<Rightarrow> string \<Rightarrow> string \<Rightarrow> int \<Rightarrow> failure + string" where
  "terminate_operand op spare r5 op_len =
     (let start = length op + 1 - length r5;
          store = int start + op_len
      in if store < 0 \<or> int (length op + 1 + length spare) \<le> store then Inl Trap
         else if r5 \<noteq> []
              then Inr (if op_len < 0 then drop 1 r5 else take (nat op_len) (drop 1 r5))
         else if 0 \<le> op_len then Inr (c_string (take (nat op_len) spare))
         else if NUL \<in> set spare then Inr (c_string spare)
         else Inl Trap)"

definition DTAR_decode_operation :: "string \<Rightarrow> string \<Rightarrow> failure + DTAR_operation_t" where
  "DTAR_decode_operation op spare =
     and_then (field_u64 op) (\<lambda>(fsize, r1).
     and_then (field_u64 (drop 1 r1)) (\<lambda>(chunk_idx, r2).
     and_then (field_u64 (drop 1 r2)) (\<lambda>(offs, r3).
     and_then (field_d (drop 1 r3)) (\<lambda>(cd, r4).
     and_then (field_d (drop 1 r4)) (\<lambda>(op_len, r5).
     and_then (terminate_operand op spare r5 (sint op_len)) (\<lambda>opnd.
       Inr \<lparr>file_size = fsize, chunk_index = chunk_idx, offset = offs, code = cd,
            operand = opnd\<rparr>))))))"
section \<open>The file list and the header codec\<close>

text \<open>
  Modelled from the spec: the type \<^verbatim>\<open>mfu_filetype\<close> and the result codes
  \<^verbatim>\<open>MFU_SUCCESS\<close> and \<^verbatim>\<open>MFU_FAILURE\<close> are declared in a header that is not among the
  sources.  The archive code tests a list item for \<^verbatim>\<open>MFU_TYPE_FILE\<close>, \<^verbatim>\<open>MFU_TYPE_DIR\<close>
  and \<^verbatim>\<open>MFU_TYPE_LINK\<close>; every other type is \<open>MFU_TYPE_OTHER\<close> here.
\<close>

datatype mfu_filetype = MFU_TYPE_FILE | MFU_TYPE_DIR | MFU_TYPE_LINK | MFU_TYPE_OTHER

datatype mfu_rc = MFU_SUCCESS | MFU_FAILURE

text \<open>
  What the archive code reads of one item of an \<^verbatim>\<open>mfu_flist\<close>: its name, type and size.
  \<^verbatim>\<open>encode_header\<close> hands the item to the tar codec of libarchive, which is outside the
  sources; its two outputs, the return code and the number of bytes \<^verbatim>\<open>used\<close> by the
  header, are carried by the item (the codec is deterministic: the planner and
  \<^verbatim>\<open>DTAR_write_header\<close> obtain the same header for the same item).
\<close>

record flist_item =
  item_name :: string
  item_type :: mfu_filetype
  item_size :: uint64_t
  header_rc :: mfu_rc
  header_used :: uint64_t

definition encode_header :: "flist_item \<Rightarrow> mfu_rc \<times> uint64_t" where
  "encode_header item = (header_rc item, header_used item)"

section \<open>The layout planner of \<^verbatim>\<open>mfu_flist_archive_create_libcircle\<close>\<close>

text \<open>
  \<^verbatim>\<open>
    uint64_t fsize_padded = fsize / 512;
    fsize_padded *= 512;
    if (fsize_padded < fsize) { fsize_padded += 512; }
  \<close>
\<close>

definition fsize_padded :: "uint64_t \<Rightarrow> uint64_t" where
  "fsize_padded fsize =
     (let p = (fsize div 512) * 512 in if p < fsize then p + 512 else p)"

text \<open>
  One turn of the planning loop computes \<^verbatim>\<open>DTAR_header_sizes[idx]\<close>, \<^verbatim>\<open>fsizes[idx]\<close> and
  the padded data bytes of the item.  The return code of \<^verbatim>\<open>encode_header\<close> is not
  looked at.
\<close>

definition entry_header_size :: "flist_item \<Rightarrow> uint64_t" where
  "entry_header_size item =
     (if item_type item = MFU_TYPE_DIR \<or> item_type item = MFU_TYPE_LINK
      then snd (encode_header item)
      else if item_type item = MFU_TYPE_FILE then snd (encode_header item)
      else 0)"

definition entry_fsize :: "flist_item \<Rightarrow> uint64_t" where
  "entry_fsize item =
     (if item_type item = MFU_TYPE_DIR \<or> item_type item = MFU_TYPE_LINK
      then snd (encode_header item)
      else if item_type item = MFU_TYPE_FILE
      then 0 + (snd (encode_header item) + fsize_padded (item_size item))
      else 0)"

definition entry_data_bytes :: "flist_item \<Rightarrow> uint64_t" where
  "entry_data_bytes item =
     (if item_type item = MFU_TYPE_DIR \<or> item_type item = MFU_TYPE_LINK then 0
      else if item_type item = MFU_TYPE_FILE then fsize_padded (item_size item)
      else 0)"

text \<open>
  The loop over the local list, with the running \<^verbatim>\<open>offset\<close> and \<^verbatim>\<open>data_bytes\<close>:
  \<^verbatim>\<open>DTAR_offsets[idx] = offset; offset += fsizes[idx];\<close>.  It returns the local
  offsets and the final values of the two counters.
\<close>

fun plan_loop :: "flist_item list \<Rightarrow> uint64_t \<Rightarrow> uint64_t \<Rightarrow> uint64_t list \<times> uint64_t \<times> uint64_t" where
  "plan_loop [] offs data_bytes = ([], offs, data_bytes)"
| "plan_loop (item # items) offs data_bytes =
     (case plan_loop items (offs + entry_fsize item) (data_bytes + entry_data_bytes item) of
        (rest, last_offs, last_bytes) \<Rightarrow> (offs # rest, last_offs, last_bytes))"

definition local_offsets :: "flist_item list \<Rightarrow> uint64_t list" where
  "local_offsets flist = fst (plan_loop flist 0 0)"

definition local_offset_total :: "flist_item list \<Rightarrow> uint64_t" where
  "local_offset_total flist = fst (snd (plan_loop flist 0 0))"

definition local_data_bytes :: "flist_item list \<Rightarrow> uint64_t" where
  "local_data_bytes flist = snd (snd (plan_loop flist 0 0))"

definition DTAR_header_sizes :: "flist_item list \<Rightarrow> uint64_t list" where
  "DTAR_header_sizes flist = map entry_header_size flist"

definition fsizes :: "flist_item list \<Rightarrow> uint64_t list" where
  "fsizes flist = map entry_fsize flist"

text \<open>
  The collectives, over the values of all ranks in rank order: \<^verbatim>\<open>MPI_Allreduce\<close> with
  \<^verbatim>\<open>MPI_SUM\<close> gives every rank the sum, \<^verbatim>\<open>MPI_Scan\<close> gives rank \<open>r\<close> the sum over the
  ranks \<open>0 .. r\<close>.  Both add in \<^verbatim>\<open>uint64_t\<close>.
\<close>

definition MPI_Allreduce_sum :: "uint64_t list \<Rightarrow> uint64_t" where
  "MPI_Allreduce_sum vals = sum_list vals"

definition MPI_Scan_sum :: "uint64_t list \<Rightarrow> nat \<Rightarrow> uint64_t" where
  "MPI_Scan_sum vals r = sum_list (take (Suc r) vals)"

text \<open>
  The list of every rank is an element of \<open>flists\<close>.
  \<^verbatim>\<open>
    MPI_Allreduce(&offset, &archive_size, 1, MPI_UINT64_T, MPI_SUM, MPI_COMM_WORLD);
    MPI_Scan(&offset, &global_offset, 1, MPI_UINT64_T, MPI_SUM, MPI_COMM_WORLD);
    global_offset -= offset;
    for (idx = 0; idx < listsize; idx++) { DTAR_offsets[idx] += global_offset; }
  \<close>
\<close>

definition archive_size :: "flist_item list list \<Rightarrow> uint64_t" where
  "archive_size flists = MPI_Allreduce_sum (map local_offset_total flists)"

definition DTAR_total_bytes :: "flist_item list list \<Rightarrow> uint64_t" where
  "DTAR_total_bytes flists = MPI_Allreduce_sum (map local_data_bytes flists)"

definition global_offset :: "flist_item list list \<Rightarrow> nat \<Rightarrow> uint64_t" where
  "global_offset flists r =
     MPI_Scan_sum (map local_offset_total flists) r - local_offset_total (flists ! r)"

definition DTAR_offsets :: "flist_item list list \<Rightarrow> nat \<Rightarrow> uint64_t list" where
  "DTAR_offsets flists r = map (\<lambda>offs. offs + global_offset flists r) (local_offsets (flists ! r))"

subsection \<open>The layout in the words of the specification\<close>

text \<open>
  The slot of an entry as the specification gives it, in unbounded arithmetic: the
  header for a directory or a symlink, the header plus the size rounded up to the next
  multiple of 512 for a regular file.  An entry of another type gets no header and no
  slot.
\<close>

definition round_up_512 :: "nat \<Rightarrow> nat" where
  "round_up_512 n = ((n + 511) div 512) * 512"

definition slot_bytes :: "flist_item \<Rightarrow> nat" where
  "slot_bytes item =
     (case item_type item of
        MFU_TYPE_FILE \<Rightarrow> unat (header_used item) + round_up_512 (unat (item_size item))
      | MFU_TYPE_DIR \<Rightarrow> unat (header_used item)
      | MFU_TYPE_LINK \<Rightarrow> unat (header_used item)
      | MFU_TYPE_OTHER \<Rightarrow> 0)"

definition archive_bytes :: "flist_item list list \<Rightarrow> nat" where
  "archive_bytes flists = sum_list (map slot_bytes (concat flists))"

text \<open>The entries that precede entry \<open>i\<close> of rank \<open>r\<close> in the archive: those of the lower
  ranks, then the earlier ones of the same rank.\<close>

definition entries_before :: "flist_item list list \<Rightarrow> nat \<Rightarrow> nat \<Rightarrow> flist_item list" where
  "entries_before flists r i = concat (take r flists) @ take i (flists ! r)"

section \<open>Task enumeration: \<^verbatim>\<open>DTAR_enqueue_copy\<close>\<close>

text \<open>
  For a regular file:
  \<^verbatim>\<open>
    uint64_t dataoffset = DTAR_offsets[idx] + DTAR_header_sizes[idx];
    uint64_t num_chunks = size / DTAR_opts->chunk_size;
    for (uint64_t chunk_idx = 0; chunk_idx < num_chunks; chunk_idx++) {
        char* newop = DTAR_encode_operation(COPY_DATA, name, size, chunk_idx, dataoffset);
        handle->enqueue(newop);
    }
    if (num_chunks * DTAR_opts->chunk_size < size || num_chunks == 0) {
        char* newop = DTAR_encode_operation(COPY_DATA, name, size, num_chunks, dataoffset);
        handle->enqueue(newop);
    }
  \<close>
  \<open>chunk_indices\<close> lists the chunk indices of the calls in order, \<open>copy_operations\<close>
  the five arguments of each call, as a work item.
\<close>

definition chunk_indices :: "uint64_t \<Rightarrow> uint64_t \<Rightarrow> uint64_t list" where
  "chunk_indices chunk_size fsize =
     (let num_chunks = fsize div chunk_size
      in map of_nat [0 ..< unat num_chunks]
         @ (if num_chunks * chunk_size < fsize \<or> num_chunks = 0 then [num_chunks] else []))"

definition copy_operations :: "uint64_t \<Rightarrow> flist_item \<Rightarrow> uint64_t \<Rightarrow> uint64_t \<Rightarrow> DTAR_operation_t list" where
  "copy_operations chunk_size item entry_offset header_size =
     (let dataoffset = entry_offset + header_size
      in map (\<lambda>chunk_idx. \<lparr>file_size = item_size item, chunk_index = chunk_idx,
                offset = dataoffset, code = COPY_DATA, operand = item_name item\<rparr>)
           (chunk_indices chunk_size (item_size item)))"

text \<open>Steps in sequence, each adding strings to the queue; the first failure ends the run.\<close>

fun collect :: "(failure + 'a list) list \<Rightarrow> failure + 'a list" where
  "collect [] = Inr []"
| "collect (m # ms) = and_then m (\<lambda>xs. and_then (collect ms) (\<lambda>ys. Inr (xs @ ys)))"

definition enqueue_operation :: "nat \<Rightarrow> DTAR_operation_t \<Rightarrow> failure + string list" where
  "enqueue_operation max_string_len op =
     and_then (DTAR_encode_operation max_string_len (code op) (operand op) (file_size op)
                 (chunk_index op) (offset op))
       (\<lambda>newop. Inr [newop])"

text \<open>
  The turn of the loop for entry \<open>idx\<close>: work only for a regular file.  The division
  by \<^verbatim>\<open>chunk_size\<close> traps when the chunk size is zero.
\<close>

definition enqueue_item :: "nat \<Rightarrow> uint64_t \<Rightarrow> flist_item \<Rightarrow> uint64_t \<Rightarrow> uint64_t \<Rightarrow> failure + string list" where
  "enqueue_item max_string_len chunk_size item entry_offset header_size =
     (if item_type item = MFU_TYPE_FILE
      then if chunk_size = 0 then Inl Trap
           else collect (map (enqueue_operation max_string_len)
                  (copy_operations chunk_size item entry_offset header_size))
      else Inr [])"

definition DTAR_enqueue_copy ::
  "nat \<Rightarrow> uint64_t \<Rightarrow> flist_item list \<Rightarrow> uint64_t list \<Rightarrow> uint64_t list \<Rightarrow> failure + string list" where
  "DTAR_enqueue_copy max_string_len chunk_size flist offsets header_sizes =
     collect (map (\<lambda>idx. enqueue_item max_string_len chunk_size (flist ! idx)
                            (offsets ! idx) (header_sizes ! idx))
                [0 ..< length flist])"

text \<open>The number of chunks in the words of the specification: \<open>max(1, \<lceil>S / chunk_size\<rceil>)\<close>.\<close>

definition ceil_div :: "nat \<Rightarrow> nat \<Rightarrow> nat" where
  "ceil_div a b = (a + b - 1) div b"

definition chunk_count :: "nat \<Rightarrow> nat \<Rightarrow> nat" where
  "chunk_count chunk_size fsize = max 1 (ceil_div fsize chunk_size)"

section \<open>Processing a work item: \<^verbatim>\<open>DTAR_perform_copy\<close>\<close>

text \<open>
  Modelled from the spec: \<^verbatim>\<open>mfu_read\<close> and \<^verbatim>\<open>mfu_write\<close> are wrappers of the I/O
  library, outside the sources.  A read returns up to the requested number of bytes
  from the current position of the file (fewer only at its end), a write puts all
  its bytes at the current position of the archive.
\<close>

definition mfu_read :: "8 word list \<Rightarrow> nat \<Rightarrow> nat \<Rightarrow> 8 word list" where
  "mfu_read content pos count = take count (drop pos content)"

text \<open>
  \<^verbatim>\<open>
    ssize_t total_bytes_written = 0;
    while (total_bytes_written < chunk_size) {
        ssize_t num_of_bytes_read = mfu_read(in_name, in_fd, DTAR_iobuf, chunk_size);
        if (! num_of_bytes_read) { break; }
        ssize_t num_of_bytes_written = mfu_write(out_name, out_fd, DTAR_iobuf, num_of_bytes_read);
        total_bytes_written += num_of_bytes_written;
    }
  \<close>
  The state of the loop is the position in the source file and the bytes written to
  the archive so far, which follow each other from the position of the seek.
\<close>

function copy_loop :: "nat \<Rightarrow> 8 word list \<Rightarrow> nat \<Rightarrow> 8 word list \<Rightarrow> 8 word list" where
  "copy_loop chunk_size content in_pos written =
     (if length written < chunk_size
      then let buf = mfu_read content in_pos chunk_size
           in if length buf = 0 then written
              else copy_loop chunk_size content (in_pos + length buf) (written @ buf)
      else written)"
  by pat_completeness auto
termination
  by (relation "measure (\<lambda>(chunk_size, content, in_pos, written). length content - in_pos)")
    (auto simp: mfu_read_def)

text \<open>
  \<^verbatim>\<open>
    uint64_t num_chunks = op->file_size / chunk_size;
    uint64_t rem = op->file_size - chunk_size * num_chunks;
    uint64_t last_chunk = (rem) ? num_chunks : num_chunks - 1;
    if (op->chunk_index == last_chunk) {
        int padding = 512 - (int) (op->file_size % 512);
        if (padding > 0 && padding != 512) { char buff[512] = {0}; mfu_write(..., buff, padding); }
    }
  \<close>
\<close>

definition last_chunk :: "uint64_t \<Rightarrow> uint64_t \<Rightarrow> uint64_t" where
  "last_chunk chunk_size fsize =
     (let num_chunks = fsize div chunk_size;
          remainder = fsize - chunk_size * num_chunks
      in if remainder \<noteq> 0 then num_chunks else num_chunks - 1)"

definition padding :: "uint64_t \<Rightarrow> int" where
  "padding fsize = 512 - sint (ucast (fsize mod 512) :: c_int)"

definition padding_written :: "uint64_t \<Rightarrow> DTAR_operation_t \<Rightarrow> 8 word list" where
  "padding_written chunk_size op =
     (if chunk_index op = last_chunk chunk_size (file_size op)
      then if padding (file_size op) > 0 \<and> padding (file_size op) \<noteq> 512
           then replicate (nat (padding (file_size op))) 0 else []
      else [])"

text \<open>
  Modelled from the spec: \<^verbatim>\<open>mfu_lseek(name, fd, pos, SEEK_SET)\<close> is a wrapper of
  \<^verbatim>\<open>lseek\<close> in the I/O library, outside the sources.  Its offset parameter is the
  signed \<^verbatim>\<open>off_t\<close>, so an unsigned 64-bit offset from \<open>2 ^ 63\<close> on arrives as a negative
  number: the seek fails and the descriptor stays where it was.  \<open>mfu_lseek pos offs\<close>
  is the position of the descriptor after the call, \<open>pos\<close> the one before it.
\<close>

definition mfu_lseek :: "nat \<Rightarrow> uint64_t \<Rightarrow> nat" where
  "mfu_lseek pos offs = (if sint offs < 0 then pos else unat offs)"

text \<open>
  \<^verbatim>\<open>
    int in_fd = mfu_open(in_name, O_RDONLY);
    int out_fd = DTAR_writer.fd;
    uint64_t in_offset  = chunk_size * op->chunk_index;
    uint64_t out_offset = op->offset + in_offset;
    mfu_lseek(in_name, in_fd, in_offset, SEEK_SET);
    mfu_lseek(out_name, out_fd, out_offset, SEEK_SET);
  \<close>
  What one call writes to the archive: the bytes copied from the source file and then
  the padding, from the position \<open>out_pos\<close> of the archive descriptor after the seek.
  The results of both seeks are ignored.  The source file is freshly opened, at
  position 0; the archive descriptor is shared by the calls of a rank, and
  \<open>out_fd_pos\<close> is where the call finds it.  The call traps on a chunk size of zero
  (at the division, after a loop that copies nothing).
\<close>

record copy_result =
  out_pos :: nat
  out_data :: "8 word list"
  out_padding :: "8 word list"

definition perform_copy ::
  "uint64_t \<Rightarrow> 8 word list \<Rightarrow> nat \<Rightarrow> DTAR_operation_t \<Rightarrow> failure + copy_result" where
  "perform_copy chunk_size content out_fd_pos op =
     (let in_offset = chunk_size * chunk_index op;
          out_offset = offset op + in_offset;
          in_pos = mfu_lseek 0 in_offset;
          written = copy_loop (unat chunk_size) content in_pos []
      in if chunk_size = 0 then Inl Trap
         else Inr \<lparr>out_pos = mfu_lseek out_fd_pos out_offset, out_data = written,
                   out_padding = padding_written chunk_size op\<rparr>)"

text \<open>
  The whole callback: the string taken from the queue into the buffer \<^verbatim>\<open>opstr\<close>
  (followed there by the bytes \<open>spare\<close>) is decoded, and the operand names the source
  file.  \<open>disk\<close> gives the content of the files that can be opened
  and read; the source does not check \<^verbatim>\<open>mfu_open\<close> or \<^verbatim>\<open>mfu_read\<close>, and hands the
  error count of a failed read on to \<^verbatim>\<open>mfu_write\<close> as a length, which is a trap here.
\<close>

definition DTAR_perform_copy ::
  "uint64_t \<Rightarrow> (string \<rightharpoonup> 8 word list) \<Rightarrow> nat \<Rightarrow> string \<Rightarrow> string \<Rightarrow> failure + copy_result" where
  "DTAR_perform_copy chunk_size disk out_fd_pos opstr spare =
     and_then (DTAR_decode_operation opstr spare)
       (\<lambda>op. case disk (operand op) of
                None \<Rightarrow> Inl Trap
              | Some content \<Rightarrow> perform_copy chunk_size content out_fd_pos op)"

text \<open>The archive bytes a call writes, and those among them that hold file data.\<close>

definition written_range :: "copy_result \<Rightarrow> nat set" where
  "written_range w = {out_pos w ..< out_pos w + length (out_data w) + length (out_padding w)}"

definition data_range :: "copy_result \<Rightarrow> nat set" where
  "data_range w = {out_pos w ..< out_pos w + length (out_data w)}"

definition bytes_written :: "failure + copy_result \<Rightarrow> nat" where
  "bytes_written res =
     (case res of Inl e \<Rightarrow> 0 | Inr w \<Rightarrow> length (out_data w) + length (out_padding w))"

section \<open>The work items of a whole run\<close>

text \<open>
  Every rank enqueues the items of its own list, with the global offsets of its
  entries; the work-stealing engine hands each item to some rank.  Work item \<open>k\<close> of
  entry \<open>i\<close> of rank \<open>r\<close> is the \<open>k\<close>-th call of the encoder for that entry.
\<close>

definition entry_operations :: "flist_item list list \<Rightarrow> uint64_t \<Rightarrow> nat \<Rightarrow> nat \<Rightarrow> DTAR_operation_t list" where
  "entry_operations flists chunk_size r i =
     copy_operations chunk_size (flists ! r ! i) (DTAR_offsets flists r ! i)
       (DTAR_header_sizes (flists ! r) ! i)"

definition work_item :: "flist_item list list \<Rightarrow> uint64_t \<Rightarrow> nat \<Rightarrow> nat \<Rightarrow> nat \<Rightarrow> DTAR_operation_t" where
  "work_item flists chunk_size r i k = entry_operations flists chunk_size r i ! k"

definition valid_work_item :: "flist_item list list \<Rightarrow> uint64_t \<Rightarrow> nat \<Rightarrow> nat \<Rightarrow> nat \<Rightarrow> bool" where
  "valid_work_item flists chunk_size r i k =
     (r < length flists \<and> i < length (flists ! r)
      \<and> item_type (flists ! r ! i) = MFU_TYPE_FILE
      \<and> k < length (entry_operations flists chunk_size r i))"

text \<open>The archive position of the first data byte of an entry.\<close>

definition data_offset :: "flist_item list list \<Rightarrow> nat \<Rightarrow> nat \<Rightarrow> nat" where
  "data_offset flists r i =
     unat (DTAR_offsets flists r ! i) + unat (DTAR_header_sizes (flists ! r) ! i)"

text \<open>The archive bytes written by a call, none when the call fails.\<close>

definition written_by :: "failure + copy_result \<Rightarrow> nat set" where
  "written_by res = (case res of Inl e \<Rightarrow> {} | Inr w \<Rightarrow> written_range w)"

definition data_written_by :: "failure + copy_result \<Rightarrow> nat set" where
  "data_written_by res = (case res of Inl e \<Rightarrow> {} | Inr w \<Rightarrow> data_range w)"

section \<open>The index file: \<^verbatim>\<open>write_entry_index\<close> and \<^verbatim>\<open>read_entry_index\<close>\<close>















section \<open>The return value of create and extract\<close>

text \<open>
  \<^verbatim>\<open>mfu_flist_archive_create_libcircle\<close> and \<^verbatim>\<open>mfu_flist_archive_extract\<close> both start with
  \<^verbatim>\<open>int rc = MFU_SUCCESS;\<close> and end with \<^verbatim>\<open>return rc;\<close>.  The calls between them that
  report how they went are call statements, whose value is dropped: \<open>discard\<close> is such a
  statement, followed by the rest of the function.
\<close>

definition discard :: "'a \<Rightarrow> 'b \<Rightarrow> 'b" where
  "discard result rest = rest"

text \<open>
  Create, for the list of one rank:
  \<^verbatim>\<open>
    int rc = MFU_SUCCESS;
    for (idx = 0; idx < listsize; idx++) {
        if (type == MFU_TYPE_DIR || type == MFU_TYPE_LINK) { encode_header(...); ... }
        else if (type == MFU_TYPE_FILE) { encode_header(...); ... }
    }
    write_entry_index(filename, listsize, DTAR_offsets);
    for (idx = 0; idx < listsize; idx++) {
        if (type == MFU_TYPE_FILE || type == MFU_TYPE_DIR || type == MFU_TYPE_LINK) {
            DTAR_write_header(flist, idx, cwdpath, DTAR_offsets[idx]);
        }
    }
    CIRCLE_begin(); ...
    return rc;
  \<close>
  \<^verbatim>\<open>DTAR_write_header\<close> and the copy callbacks return nothing, and do not check their
  own calls.  \<open>index_written\<close> is what \<^verbatim>\<open>write_entry_index\<close> returns.
\<close>

definition header_probes :: "flist_item list \<Rightarrow> mfu_rc list" where
  "header_probes flist =
     map (\<lambda>item. fst (encode_header item))
       (filter (\<lambda>item. item_type item \<noteq> MFU_TYPE_OTHER) flist)"

definition mfu_flist_archive_create_libcircle :: "flist_item list \<Rightarrow> bool \<Rightarrow> mfu_rc" where
  "mfu_flist_archive_create_libcircle flist index_written =
     (let rc = MFU_SUCCESS
      in discard (header_probes flist)
        (discard index_written
        (discard (header_probes flist)
         rc)))"

text \<open>\<^verbatim>\<open>int rc = mfu_flist_archive_create_libcircle(...); return rc;\<close>\<close>

definition mfu_flist_archive_create :: "flist_item list \<Rightarrow> bool \<Rightarrow> mfu_rc" where
  "mfu_flist_archive_create flist index_written =
     mfu_flist_archive_create_libcircle flist index_written"

text \<open>
  Extract:
  \<^verbatim>\<open>
    int rc = MFU_SUCCESS;
    int ret = read_entry_index(filename, &entries, &offsets);
    if (ret != MFU_SUCCESS) {
        have_index = false;
        ret = index_entries(filename, &entries, &offsets);
        if (ret != MFU_SUCCESS) { have_offsets = false; }
    }
    if (have_offsets) { extract_flist_offsets(...); } else { extract_flist(...); }
    if (have_offsets) { extract_files_offsets(...); } else { extract_files(...); }
    if (have_offsets && !have_index) { write_entry_index(...); }
    return rc;
  \<close>
  The parameters are what the callees return: \<^verbatim>\<open>read_entry_index\<close>, \<^verbatim>\<open>index_entries\<close>,
  the metadata pass (\<^verbatim>\<open>extract_flist_offsets\<close>, which combines the ranks with
  \<^verbatim>\<open>mfu_alltrue\<close>; \<^verbatim>\<open>extract_flist\<close> returns nothing), the extraction pass
  (\<^verbatim>\<open>extract_files_offsets\<close> or \<^verbatim>\<open>extract_files\<close>) and \<^verbatim>\<open>write_entry_index\<close>.
\<close>

definition mfu_flist_archive_extract :: "mfu_rc \<Rightarrow> mfu_rc \<Rightarrow> mfu_rc \<Rightarrow> mfu_rc \<Rightarrow> bool \<Rightarrow> mfu_rc" where
  "mfu_flist_archive_extract index_read index_scanned flist_extracted files_extracted
       index_written =
     (let rc = MFU_SUCCESS;
          have_index = (index_read = MFU_SUCCESS);
          have_offsets = (have_index \<or> index_scanned = MFU_SUCCESS)
      in discard (if have_offsets then [flist_extracted] else [])
        (discard files_extracted
        (discard (if have_offsets \<and> \<not> have_index then [index_written] else [])
         rc)))"
section \<open>Range partition of the extractor\<close>

text \<open>
  From \<^verbatim>\<open>mfu_flist_archive_extract\<close> ("divide entries among ranks"):
  \<^verbatim>\<open>
    uint64_t entries_per_rank = entries / ranks;
    uint64_t entries_remainder = entries - entries_per_rank * ranks;
    if (mfu_rank < entries_remainder) {
        entry_count = entries_per_rank + 1;
        entry_start = mfu_rank * entry_count;
    } else {
        entry_count = entries_per_rank;
        entry_start = entries_remainder * (entry_count + 1)
                    + (mfu_rank - entries_remainder) * entry_count;
    }
  \<close>
  \<open>ranks\<close> and \<open>mfu_rank\<close> are C ints.  The division traps when \<open>ranks\<close> is zero, which
  is the \<open>None\<close> of \<open>range_partition\<close>.
\<close>

definition entries_per_rank :: "uint64_t \<Rightarrow> int \<Rightarrow> uint64_t" where
  "entries_per_rank entries ranks = entries div word_of_int ranks"

definition entries_remainder :: "uint64_t \<Rightarrow> int \<Rightarrow> uint64_t" where
  "entries_remainder entries ranks =
     entries - entries_per_rank entries ranks * word_of_int ranks"

definition entry_count :: "uint64_t \<Rightarrow> int \<Rightarrow> int \<Rightarrow> uint64_t" where
  "entry_count entries ranks mfu_rank =
     (if word_of_int mfu_rank < entries_remainder entries ranks
      then entries_per_rank entries ranks + 1
      else entries_per_rank entries ranks)"

definition entry_start :: "uint64_t \<Rightarrow> int \<Rightarrow> int \<Rightarrow> uint64_t" where
  "entry_start entries ranks mfu_rank =
     (if word_of_int mfu_rank < entries_remainder entries ranks
      then word_of_int mfu_rank * entry_count entries ranks mfu_rank
      else entries_remainder entries ranks * (entry_count entries ranks mfu_rank + 1)
           + (word_of_int mfu_rank - entries_remainder entries ranks)
             * entry_count entries ranks mfu_rank)"

definition range_partition :: "uint64_t \<Rightarrow> int \<Rightarrow> int \<Rightarrow> (uint64_t \<times> uint64_t) option" where
  "range_partition entries ranks mfu_rank =
     (if (word_of_int ranks :: uint64_t) = 0 then None
      else Some (entry_start entries ranks mfu_rank, entry_count entries ranks mfu_rank))"

text \<open>The entries of a rank, as a set of global entry numbers.\<close>

definition entry_range :: "uint64_t \<Rightarrow> int \<Rightarrow> nat \<Rightarrow> nat set" where
  "entry_range entries ranks k =
     {unat (entry_start entries ranks (int k)) ..<
      unat (entry_start entries ranks (int k)) + unat (entry_count entries ranks (int k))}"

section \<open>Example inputs\<close>

text \<open>A directory, a regular file of 513 bytes and a symlink, with the header sizes
  the codec might report for them.\<close>

definition ex_dir :: flist_item where
  "ex_dir = \<lparr>item_name = ''d'', item_type = MFU_TYPE_DIR, item_size = 4096,
     header_rc = MFU_SUCCESS, header_used = 512\<rparr>"

definition ex_file :: flist_item where
  "ex_file = \<lparr>item_name = ''d/f'', item_type = MFU_TYPE_FILE, item_size = 513,
     header_rc = MFU_SUCCESS, header_used = 512\<rparr>"

definition ex_link :: flist_item where
  "ex_link = \<lparr>item_name = ''d/s'', item_type = MFU_TYPE_LINK, item_size = 6,
     header_rc = MFU_SUCCESS, header_used = 1024\<rparr>"


text \<open>A symlink that cannot be read when its header is encoded: \<^verbatim>\<open>readlink\<close> fails and
  \<^verbatim>\<open>encode_header\<close> returns \<^verbatim>\<open>MFU_FAILURE\<close>.\<close>

definition ex_unreadable_link :: flist_item where
  "ex_unreadable_link = \<lparr>item_name = ''d/gone'', item_type = MFU_TYPE_LINK, item_size = 0,
     header_rc = MFU_FAILURE, header_used = 512\<rparr>"

section \<open>Facts about 64-bit words\<close>

lemma unat_woi: "0 \<le> r \<Longrightarrow> r < 2^31 \<Longrightarrow> unat (word_of_int r :: uint64_t) = nat r"
  by (simp add: unat_eq_nat_uint uint_word_of_int take_bit_int_eq_self) 

lemma unat_of_nat64: "n < 2^64 \<Longrightarrow> unat (of_nat n :: uint64_t) = n"
  by (simp add: unat_of_nat)

lemma unat_lt64: "unat (w :: uint64_t) < 2^64"
  using unsigned_less [of w, where ?'a = nat] by simp

lemma unat_add64: "unat a + unat b < 2^64 \<Longrightarrow> unat (a + b :: uint64_t) = unat a + unat b"
  using unat_add_lem [of a b] by simp

lemma unat_sum_list64:
  "sum_list (map unat ws) < 2^64 \<Longrightarrow> unat (sum_list ws :: uint64_t) = sum_list (map unat ws)"
proof (induction ws)
  case Nil
  then show ?case by simp
next
  case (Cons w ws)
  then have "sum_list (map unat ws) < 2^64" by simp
  with Cons show ?case by (simp add: unat_add64)
qed

section \<open>Decoding an encoded work item\<close>

declare decimal.simps [simp del]

lemma of_char_digit_char: "d < 10 \<Longrightarrow> (of_char (digit_char d) :: nat) = 48 + d"
  by (simp add: digit_char_def)

lemma isdigit_digit_char: "d < 10 \<Longrightarrow> isdigit (digit_char d)"
  by (simp add: isdigit_def of_char_digit_char)

lemma decimal_not_Nil: "decimal n \<noteq> []"
  by (subst decimal.simps) simp

lemma decimal_digits: "c \<in> set (decimal n) \<Longrightarrow> isdigit c"
proof (induction n rule: decimal.induct)
  case (1 n)
  show ?case
  proof (cases "n < 10")
    case True
    with "1.prems" show ?thesis
      by (subst (asm) decimal.simps) (simp add: isdigit_digit_char)
  next
    case False
    with "1.prems" have "c \<in> set (decimal (n div 10)) \<or> c = digit_char (n mod 10)"
      by (subst (asm) decimal.simps) auto
    with False "1.IH" show ?thesis by (auto simp: isdigit_digit_char)
  qed
qed

lemma digits_value_snoc:
  "digits_value (ds @ [c]) = 10 * digits_value ds + ((of_char c :: nat) - 48)"
  by (simp add: digits_value_def)

lemma digits_value_decimal: "digits_value (decimal n) = n"
proof (induction n rule: decimal.induct)
  case (1 n)
  show ?case
  proof (cases "n < 10")
    case True
    then show ?thesis
      by (subst decimal.simps) (simp add: digits_value_def of_char_digit_char)
  next
    case False
    then have "digits_value (decimal n) = 10 * digits_value (decimal (n div 10)) + n mod 10"
      by (subst decimal.simps) (simp add: digits_value_snoc of_char_digit_char)
    with False "1.IH" show ?thesis by simp
  qed
qed

lemma isdigit_not_special:
  "isdigit c \<Longrightarrow> \<not> isspace c \<and> c \<noteq> CHR ''-'' \<and> c \<noteq> CHR ''+'' \<and> c \<noteq> CHR '':''"
  by (auto simp: isdigit_def isspace_def)

lemma scan_integer_digits:
  assumes "ds \<noteq> []" "\<forall>c\<in>set ds. isdigit c"
  shows "scan_integer ds = Some (False, digits_value ds)"
proof -
  obtain c r where ds: "ds = c # r" using assms(1) by (cases ds) auto
  then have c: "isdigit c" using assms(2) by simp
  have 1: "dropWhile isspace ds = ds" using ds c isdigit_not_special by simp
  have 2: "takeWhile isdigit ds = ds" using assms(2) by (simp add: takeWhile_eq_all_conv)
  have 3: "(case ds of [] \<Rightarrow> False | c # _ \<Rightarrow> c = CHR ''-'') = False"
    using ds isdigit_not_special [OF c] by simp
  have 4: "(case ds of [] \<Rightarrow> [] | c # r \<Rightarrow> if c = CHR ''-'' \<or> c = CHR ''+'' then r else ds) = ds"
    using ds isdigit_not_special [OF c] by simp
  show ?thesis
    unfolding scan_integer_def 1 Let_def 3 4 2 using assms(1) by simp
qed

lemma scan_integer_decimal: "scan_integer (decimal n) = Some (False, n)"
  using scan_integer_digits [of "decimal n"] decimal_not_Nil decimal_digits
  by (simp add: digits_value_decimal)

lemma scan_integer_minus_decimal: "scan_integer (CHR ''-'' # decimal n) = Some (True, n)"
proof -
  have 1: "dropWhile isspace (CHR ''-'' # decimal n) = CHR ''-'' # decimal n"
    by (simp add: isspace_def)
  have 2: "takeWhile isdigit (decimal n) = decimal n"
    using decimal_digits by (simp add: takeWhile_eq_all_conv)
  show ?thesis
    unfolding scan_integer_def 1 Let_def list.case if_True simp_thms 2
    using decimal_not_Nil by (simp add: digits_value_decimal)
qed

lemma sscanf_printf_u64: "sscanf_u64 (printf_u64 w) = Some w"
proof -
  have "\<not> 2 ^ 64 \<le> unat w" using unat_lt64 [of w] by simp
  then show ?thesis
    by (simp add: sscanf_u64_def printf_u64_def scan_integer_decimal)
qed

lemma sint_c_int_bounds: "- 2147483648 \<le> sint (w :: c_int) \<and> sint w < 2147483648"
  using sint_ge [of w] sint_lt [of w] by simp

lemma sscanf_printf_d: "sscanf_d (printf_d w) = Some w"
proof (cases "sint w < 0")
  case True
  have "nat (- sint w) \<le> 2147483648" using sint_c_int_bounds [of w] by linarith
  moreover have "(2147483648 :: nat) \<le> 2 ^ 63" by simp
  ultimately have "nat (- sint w) \<le> 2 ^ 63" by (rule order_trans)
  then have "strtol True (nat (- sint w)) = sint w"
    using True by (simp add: strtol_def min_def)
  with True show ?thesis
    by (simp add: sscanf_d_def printf_d_def scan_integer_minus_decimal)
next
  case False
  have "nat (sint w) \<le> 2147483648" using sint_c_int_bounds [of w] by linarith
  moreover have "(2147483648 :: nat) \<le> 2 ^ 63 - 1" by simp
  ultimately have "nat (sint w) \<le> 2 ^ 63 - 1" by (rule order_trans)
  then have "strtol False (nat (sint w)) = sint w"
    using False by (simp add: strtol_def min_def)
  with False show ?thesis
    by (simp add: sscanf_d_def printf_d_def scan_integer_decimal)
qed

lemma printf_u64_token: "printf_u64 w \<noteq> [] \<and> CHR '':'' \<notin> set (printf_u64 w)"
  using decimal_digits isdigit_not_special by (auto simp: printf_u64_def decimal_not_Nil)

lemma printf_d_token: "printf_d w \<noteq> [] \<and> CHR '':'' \<notin> set (printf_d w)"
  using decimal_digits isdigit_not_special by (auto simp: printf_d_def decimal_not_Nil)

lemma strtok_token:
  assumes "t \<noteq> []" "CHR '':'' \<notin> set t"
  shows "strtok (t @ CHR '':'' # r) = Some (t, CHR '':'' # r)"
proof -
  obtain c u where t: "t = c # u" using assms(1) by (cases t) auto
  then have "c \<noteq> CHR '':''" using assms(2) by auto
  then have 1: "dropWhile (\<lambda>c. c = CHR '':'') (t @ CHR '':'' # r) = t @ CHR '':'' # r"
    using t by simp
  have nt: "\<forall>x\<in>set t. x \<noteq> CHR '':''" using assms(2) by auto
  have 2: "takeWhile (\<lambda>c. c \<noteq> CHR '':'') (t @ CHR '':'' # r) = t"
    using nt by (simp add: takeWhile_tail)
  have 3: "dropWhile (\<lambda>c. c \<noteq> CHR '':'') (t @ CHR '':'' # r) = CHR '':'' # r"
    using nt by (simp add: dropWhile_append3)
  show ?thesis unfolding strtok_def 1 using 2 3 t by (simp add: Let_def)
qed

lemma next_field_token:
  assumes "t \<noteq> []" "CHR '':'' \<notin> set t"
  shows "next_field (t @ CHR '':'' # r) = Inr (t, CHR '':'' # r)"
  using strtok_token [OF assms] by (simp add: next_field_def)

lemma field_u64_printf: "field_u64 (printf_u64 w @ CHR '':'' # r) = Inr (w, CHR '':'' # r)"
  by (simp add: field_u64_def and_then_def next_field_token printf_u64_token sscanf_printf_u64)

lemma field_d_printf: "field_d (printf_d w @ CHR '':'' # r) = Inr (w, CHR '':'' # r)"
  by (simp add: field_d_def and_then_def next_field_token printf_d_token sscanf_printf_d)

lemma sint_of_nat_small: "n < 2^31 \<Longrightarrow> sint (of_nat n :: c_int) = int n"
  by (simp add: signed_of_nat signed_take_bit_int_eq_self)

lemma operand_length_bound:
  assumes "length (operation_text cd opnd fsize idx offs) < m" "m \<le> 2^31"
  shows "length opnd < 2^31"
proof -
  have "length opnd \<le> length (operation_text cd opnd fsize idx offs)"
    by (simp add: operation_text_def)
  with assms show ?thesis by linarith
qed

lemma terminate_operand_text:
  "terminate_operand (t @ CHR '':'' # opnd) spare (CHR '':'' # opnd) (int (length opnd)) =
     Inr opnd"
  by (simp add: terminate_operand_def Let_def)

lemma decode_operation_text:
  assumes "length opnd < 2^31"
  shows "DTAR_decode_operation (operation_text cd opnd fsize idx offs) spare =
     Inr \<lparr>file_size = fsize, chunk_index = idx, offset = offs, code = cd, operand = opnd\<rparr>"
proof -
  have len: "sint (of_nat (length opnd) :: c_int) = int (length opnd)"
    using assms by (rule sint_of_nat_small)
  define t where "t = printf_u64 fsize @ '':'' @ printf_u64 idx @ '':'' @ printf_u64 offs @ '':''
       @ printf_d cd @ '':'' @ printf_d (of_nat (length opnd))"
  have form: "operation_text cd opnd fsize idx offs = t @ CHR '':'' # opnd"
    by (simp add: operation_text_def t_def)
  have "DTAR_decode_operation (operation_text cd opnd fsize idx offs) spare =
      and_then (terminate_operand (operation_text cd opnd fsize idx offs) spare
          (CHR '':'' # opnd) (int (length opnd)))
        (\<lambda>opnd. Inr \<lparr>file_size = fsize, chunk_index = idx, offset = offs, code = cd,
            operand = opnd\<rparr>)"
    unfolding DTAR_decode_operation_def
    by (simp add: operation_text_def and_then_def field_u64_printf field_d_printf len)
  also have "\<dots> = Inr \<lparr>file_size = fsize, chunk_index = idx, offset = offs, code = cd,
      operand = opnd\<rparr>"
    unfolding form terminate_operand_text by (simp add: and_then_def)
  finally show ?thesis .
qed

lemma decode_after_encode:
  assumes "DTAR_encode_operation max_string_len cd opnd fsize idx offs = Inr s"
    and "max_string_len \<le> 2^31"
  shows "DTAR_decode_operation s spare =
     Inr \<lparr>file_size = fsize, chunk_index = idx, offset = offs, code = cd, operand = opnd\<rparr>"
proof -
  from assms(1) have s: "s = operation_text cd opnd fsize idx offs"
    and fits: "length (operation_text cd opnd fsize idx offs) < max_string_len"
    by (auto simp: DTAR_encode_operation_def Let_def split: if_splits)
  from operand_length_bound [OF fits assms(2)] show ?thesis
    unfolding s by (rule decode_operation_text)
qed

text \<open>
  Strings that the encoder does not produce.  A negative length leaves the operand
  whole; a length field at the end of the string has the operand read from the bytes
  after the terminator; a size of \<open>2 ^ 64\<close> is read as \<open>2 ^ 64 - 1\<close>.
\<close>

lemmas decode_steps = DTAR_decode_operation_def field_u64_def field_d_def next_field_def
  strtok_def and_then_def sscanf_u64_def sscanf_d_def scan_integer_def isspace_def isdigit_def
  digits_value_def terminate_operand_def Let_def strtol_def c_string_def NUL_def

lemma decode_negative_length:
  "DTAR_decode_operation ''1:2:3:0:-1:abc'' [] =
     Inr \<lparr>file_size = 1, chunk_index = 2, offset = 3, code = 0, operand = ''abc''\<rparr>"
  by (simp add: decode_steps)

lemma decode_missing_operand:
  "DTAR_decode_operation ''1:2:3:0:2'' [CHR ''x'', CHR ''y'', CHR 0x00, CHR ''z''] =
     Inr \<lparr>file_size = 1, chunk_index = 2, offset = 3, code = 0, operand = ''xy''\<rparr>"
  by (simp add: decode_steps)

lemma decode_saturated_size:
  "DTAR_decode_operation ''18446744073709551616:2:3:0:1:a'' [] =
     Inr \<lparr>file_size = - 1, chunk_index = 2, offset = 3, code = 0, operand = ''a''\<rparr>"
  by (simp add: decode_steps)

text \<open>
  Claim C9.  Whenever \<^verbatim>\<open>DTAR_encode_operation\<close> returns a string, that is, whenever the
  text fits within \<^verbatim>\<open>CIRCLE_MAX_STRING_LEN\<close> (a buffer size, at most \<open>2 ^ 31\<close>, so
  that the operand length is an \<^verbatim>\<open>int\<close>), \<^verbatim>\<open>DTAR_decode_operation\<close> on that string
  returns the file size, chunk index, offset, code and operand that were encoded,
  whatever the buffer holds after the string.  The operand is any string, with or
  without \<^verbatim>\<open>':'\<close> in it: it is recovered from the position after the length field and
  cut at the encoded length.
\<close>

theorem decode_encode_operation:
  assumes "DTAR_encode_operation max_string_len cd opnd fsize idx offs = Inr s"
    and "max_string_len \<le> 2^31"
  shows "DTAR_decode_operation s spare =
     Inr \<lparr>file_size = fsize, chunk_index = idx, offset = offs, code = cd, operand = opnd\<rparr>"
  using assms by (rule decode_after_encode)

theorem decode_encode_operation_witness:
  "DTAR_encode_operation 4096 COPY_DATA ''/a:b/c'' 513 0 12345 = Inr ''513:0:12345:0:6:/a:b/c''
   \<and> (4096::nat) \<le> 2^31
   \<and> DTAR_decode_operation ''513:0:12345:0:6:/a:b/c'' ''junk'' =
     Inr \<lparr>file_size = 513, chunk_index = 0, offset = 12345, code = COPY_DATA,
          operand = ''/a:b/c''\<rparr>"
proof -
  have e: "DTAR_encode_operation 4096 COPY_DATA ''/a:b/c'' 513 0 12345
      = Inr ''513:0:12345:0:6:/a:b/c''"
    by (simp add: DTAR_encode_operation_def operation_text_def printf_u64_def printf_d_def
        COPY_DATA_def decimal.simps digit_char_def char_of_def bit_0)
  have m: "(4096::nat) \<le> 2^31" by simp
  from decode_encode_operation [OF e m, of "''junk''"] e m show ?thesis by simp
qed
section \<open>The layout plan\<close>

lemma div_512_round: "m < 512 \<Longrightarrow> (m + 511) div 512 = (if m = 0 then 0 else (1::nat))"
proof (cases "m = 0")
  case True then show ?thesis by simp
next
  case False
  assume "m < 512"
  with False have "m + 511 = 512 + (m - 1)" "m - 1 < 512" by simp_all
  then have "(m + 511) div 512 = 1" by (simp add: div_add_self1)
  with False show ?thesis by simp
qed

lemma round_up_512_alt: "round_up_512 n = n div 512 * 512 + (if n mod 512 = 0 then 0 else 512)"
proof -
  have "(n + 511) div 512 = (n div 512 * 512 + (n mod 512 + 511)) div 512"
    by (simp add: add.assoc [symmetric])
  also have "\<dots> = n div 512 + (n mod 512 + 511) div 512"
    by (simp only: div_mult_self3 [of 512 "n div 512" "n mod 512 + 511"] mult.commute)
  also have "(n mod 512 + 511) div 512 = (if n mod 512 = 0 then 0 else 1)"
    by (rule div_512_round) simp
  finally show ?thesis by (simp add: round_up_512_def)
qed

lemma round_up_512_cases:
  obtains q where "n = q * 512" "round_up_512 n = n" "n mod 512 = 0" "n div 512 = q"
  | q m where "n = q * 512 + m" "0 < m" "m < 512" "round_up_512 n = q * 512 + 512"
      "n mod 512 = m" "n div 512 = q"
proof (cases "n mod 512 = 0")
  case True
  then have "n = n div 512 * 512"
    using div_mult_mod_eq [of n 512] by (simp only: add_0_right)
  moreover from this True have "round_up_512 n = n" by (simp add: round_up_512_alt)
  ultimately show ?thesis using True by (intro that(1) [of "n div 512"]) simp_all
next
  case False
  define q where "q = n div 512"
  define m where "m = n mod 512"
  have "n = q * 512 + m" by (simp add: q_def m_def)
  moreover have "0 < m" using False by (simp add: m_def)
  moreover have "m < 512" by (simp add: m_def)
  moreover have "round_up_512 n = q * 512 + 512" using False by (simp add: round_up_512_alt q_def)
  moreover have "n mod 512 = m" "n div 512 = q" by (simp_all add: m_def q_def)
  ultimately show ?thesis by (rule that(2))
qed

lemma round_up_512_ge: "n \<le> round_up_512 n"
  by (rule round_up_512_cases [of n]) simp_all

lemma round_up_512_pad: "round_up_512 n = n + (512 - n mod 512) mod 512"
  by (rule round_up_512_cases [of n]) simp_all

lemma fsize_padded_nat:
  assumes "round_up_512 (unat fsize) < 2^64"
  shows "unat (fsize_padded fsize) = round_up_512 (unat fsize)"
proof -
  let ?n = "unat fsize"
  have p: "(fsize div 512) * 512 = of_nat (?n div 512 * 512)"
    by (simp add: word_arith_nat_div [of fsize])
  have le: "?n div 512 * 512 \<le> ?n" by simp
  then have b: "?n div 512 * 512 < 2^64" using unat_lt64 [of fsize] by linarith
  have up: "unat ((fsize div 512) * 512) = ?n div 512 * 512"
    unfolding p using b by (rule unat_of_nat64)
  show ?thesis
  proof (rule round_up_512_cases [of ?n])
    fix q assume q: "?n = q * 512" "round_up_512 ?n = ?n" "?n mod 512 = 0" "?n div 512 = q"
    then have "\<not> (fsize div 512) * 512 < fsize"
      using up by (simp add: word_less_nat_alt)
    then show ?thesis using q up by (simp add: fsize_padded_def Let_def)
  next
    fix q m assume q: "?n = q * 512 + m" "0 < m" "m < 512" "round_up_512 ?n = q * 512 + 512"
      "?n mod 512 = m" "?n div 512 = q"
    then have c: "(fsize div 512) * 512 < fsize"
      using up by (simp add: word_less_nat_alt)
    have "(fsize div 512) * 512 + 512 = of_nat (?n div 512 * 512 + 512)"
      unfolding p by simp
    moreover have "?n div 512 * 512 + 512 < 2^64" using assms q by simp
    ultimately have "unat ((fsize div 512) * 512 + 512) = ?n div 512 * 512 + 512"
      by (simp only: unat_of_nat64)
    then show ?thesis using c q by (simp add: fsize_padded_def Let_def)
  qed
qed

lemma entry_fsize_nat:
  assumes "slot_bytes item < 2^64"
  shows "unat (entry_fsize item) = slot_bytes item"
proof (cases "item_type item")
  case MFU_TYPE_FILE
  with assms have b: "unat (header_used item) + round_up_512 (unat (item_size item)) < 2^64"
    by (simp add: slot_bytes_def)
  then have "round_up_512 (unat (item_size item)) < 2^64" by linarith
  then have "unat (fsize_padded (item_size item)) = round_up_512 (unat (item_size item))"
    by (rule fsize_padded_nat)
  with b MFU_TYPE_FILE show ?thesis
    by (simp add: entry_fsize_def encode_header_def slot_bytes_def unat_add64)
qed (simp_all add: entry_fsize_def encode_header_def slot_bytes_def)

lemma plan_loop_Cons:
  "fst (plan_loop (item # items) offs db) =
     offs # fst (plan_loop items (offs + entry_fsize item) (db + entry_data_bytes item))"
  "fst (snd (plan_loop (item # items) offs db)) =
     fst (snd (plan_loop items (offs + entry_fsize item) (db + entry_data_bytes item)))"
  "snd (snd (plan_loop (item # items) offs db)) =
     snd (snd (plan_loop items (offs + entry_fsize item) (db + entry_data_bytes item)))"
  by (simp_all add: case_prod_unfold)

lemma plan_loop_length: "length (fst (plan_loop items offs db)) = length items"
  by (induction items arbitrary: offs db) (simp_all add: plan_loop_Cons del: plan_loop.simps(2))

lemma plan_loop_total:
  "fst (snd (plan_loop items offs db)) = offs + sum_list (map entry_fsize items)"
  by (induction items arbitrary: offs db)
    (simp_all add: plan_loop_Cons add.assoc del: plan_loop.simps(2))

lemma plan_loop_nth:
  "i < length items \<Longrightarrow>
   fst (plan_loop items offs db) ! i = offs + sum_list (map entry_fsize (take i items))"
proof (induction items arbitrary: offs db i)
  case Nil
  then show ?case by simp
next
  case (Cons item items)
  show ?case
  proof (cases i)
    case 0
    then show ?thesis by (simp add: plan_loop_Cons del: plan_loop.simps(2))
  next
    case (Suc j)
    with Cons.prems have "j < length items" by simp
    from Cons.IH [OF this, of "offs + entry_fsize item" "db + entry_data_bytes item"] Suc
    show ?thesis by (simp add: plan_loop_Cons add.assoc del: plan_loop.simps(2))
  qed
qed

lemma local_offsets_length: "length (local_offsets flist) = length flist"
  by (simp add: local_offsets_def plan_loop_length)

lemma local_offset_total_sum: "local_offset_total flist = sum_list (map entry_fsize flist)"
  by (simp add: local_offset_total_def plan_loop_total)

lemma sum_list_map_concat:
  "sum_list (map f (concat xss)) = sum_list (map (\<lambda>xs. sum_list (map f xs)) xss)"
  by (induction xss) simp_all

lemma global_offset_sum:
  assumes "r < length flists"
  shows "global_offset flists r = sum_list (map entry_fsize (concat (take r flists)))"
proof -
  have "take (Suc r) (map local_offset_total flists) =
      take r (map local_offset_total flists) @ [local_offset_total (flists ! r)]"
    using assms by (simp add: take_Suc_conv_app_nth)
  then have "global_offset flists r = sum_list (take r (map local_offset_total flists))"
    by (simp add: global_offset_def MPI_Scan_sum_def)
  also have "\<dots> = sum_list (map (\<lambda>f. sum_list (map entry_fsize f)) (take r flists))"
    by (simp add: take_map local_offset_total_sum [abs_def])
  also have "\<dots> = sum_list (map entry_fsize (concat (take r flists)))"
    by (simp only: sum_list_map_concat)
  finally show ?thesis .
qed


lemma DTAR_offsets_length:
  "length (DTAR_offsets flists r) = length (flists ! r)"
  by (simp add: DTAR_offsets_def local_offsets_length)

lemma DTAR_offsets_word:
  assumes "r < length flists" "i < length (flists ! r)"
  shows "DTAR_offsets flists r ! i = sum_list (map entry_fsize (entries_before flists r i))"
  using assms
  by (simp add: DTAR_offsets_def local_offsets_def plan_loop_length plan_loop_nth
      global_offset_sum entries_before_def)

lemma concat_entries_before:
  assumes "r < length flists"
  shows "concat flists =
     entries_before flists r i @ drop i (flists ! r) @ concat (drop (Suc r) flists)"
proof -
  have "flists = take r flists @ flists ! r # drop (Suc r) flists"
    using assms by (rule id_take_nth_drop)
  then have "concat flists = concat (take r flists) @ flists ! r @ concat (drop (Suc r) flists)"
    by (metis concat.simps(2) concat_append)
  also have "flists ! r = take i (flists ! r) @ drop i (flists ! r)" by simp
  finally show ?thesis by (simp add: entries_before_def)
qed

lemma entries_before_bytes_le:
  assumes "r < length flists"
  shows "sum_list (map slot_bytes (entries_before flists r i)) \<le> archive_bytes flists"
  unfolding archive_bytes_def by (subst concat_entries_before [OF assms, of i]) simp

lemma map_entry_fsize_nat:
  assumes "sum_list (map slot_bytes items) < 2^64"
  shows "map unat (map entry_fsize items) = map slot_bytes items"
proof -
  have "\<forall>item\<in>set items. (unat \<circ> entry_fsize) item = slot_bytes item"
  proof
    fix item assume "item \<in> set items"
    then have "slot_bytes item \<le> sum_list (map slot_bytes items)"
      by (simp add: member_le_sum_list)
    with assms have "slot_bytes item < 2^64" by linarith
    then show "(unat \<circ> entry_fsize) item = slot_bytes item" by (simp add: entry_fsize_nat)
  qed
  then have "map (unat \<circ> entry_fsize) items = map slot_bytes items"
    by (simp only: map_eq_conv)
  then show ?thesis by (simp only: map_map)
qed

lemma sum_entry_fsize_nat:
  assumes "sum_list (map slot_bytes items) < 2^64"
  shows "unat (sum_list (map entry_fsize items)) = sum_list (map slot_bytes items)"
proof -
  note eq = map_entry_fsize_nat [OF assms]
  have "sum_list (map unat (map entry_fsize items)) < 2^64"
    unfolding eq by (rule assms)
  from unat_sum_list64 [OF this] show ?thesis by (simp only: eq)
qed

lemma DTAR_offsets_nat:
  assumes "archive_bytes flists < 2^64" "r < length flists" "i < length (flists ! r)"
  shows "unat (DTAR_offsets flists r ! i) = sum_list (map slot_bytes (entries_before flists r i))"
proof -
  from entries_before_bytes_le [OF assms(2), of i] assms(1)
  have "sum_list (map slot_bytes (entries_before flists r i)) < 2^64" by linarith
  then show ?thesis unfolding DTAR_offsets_word [OF assms(2,3)] by (rule sum_entry_fsize_nat)
qed

lemma item_slot_bytes_le:
  assumes "r < length flists" "i < length (flists ! r)"
  shows "sum_list (map slot_bytes (entries_before flists r i)) + slot_bytes (flists ! r ! i)
     \<le> archive_bytes flists"
proof -
  have "drop i (flists ! r) = flists ! r ! i # drop (Suc i) (flists ! r)"
    using assms(2) by (simp add: Cons_nth_drop_Suc)
  then show ?thesis
    unfolding archive_bytes_def by (subst concat_entries_before [OF assms(1), of i]) simp
qed

lemma fsizes_nat:
  assumes "archive_bytes flists < 2^64" "r < length flists" "i < length (flists ! r)"
  shows "unat (fsizes (flists ! r) ! i) = slot_bytes (flists ! r ! i)"
proof -
  from item_slot_bytes_le [OF assms(2,3)] assms(1)
  have "slot_bytes (flists ! r ! i) < 2^64" by linarith
  then show ?thesis using assms(3) by (simp add: fsizes_def entry_fsize_nat)
qed

lemma archive_size_nat:
  assumes "archive_bytes flists < 2^64"
  shows "unat (archive_size flists) = archive_bytes flists"
proof -
  have "archive_size flists = sum_list (map entry_fsize (concat flists))"
    by (simp add: archive_size_def MPI_Allreduce_sum_def local_offset_total_sum [abs_def]
        sum_list_map_concat)
  then show ?thesis using assms sum_entry_fsize_nat [of "concat flists"]
    by (simp add: archive_bytes_def)
qed

lemma entries_before_Suc:
  assumes "i < length (flists ! r)"
  shows "entries_before flists r (Suc i) = entries_before flists r i @ [flists ! r ! i]"
  using assms by (simp add: entries_before_def take_Suc_conv_app_nth)

lemma entries_before_mono:
  assumes "j \<le> i"
  shows "sum_list (map slot_bytes (entries_before flists r j))
     \<le> sum_list (map slot_bytes (entries_before flists r i))"
proof -
  have "take i (flists ! r) = take j (flists ! r) @ take (i - j) (drop j (flists ! r))"
    using assms by (metis le_add_diff_inverse take_add)
  then show ?thesis by (simp add: entries_before_def)
qed


text \<open>
  Claim C3.  When the whole archive fits the 64-bit offsets (the slots of all entries
  of all ranks sum to less than \<open>2 ^ 64\<close>), the plan of every rank \<open>r\<close> satisfies, for each
  of its entries \<open>i\<close>: the slot size is the header size for a directory or a symlink
  and the header size plus the file size rounded up to a multiple of 512 for a regular
  file; the first offset of the rank is the sum of the slot sizes of all lower ranks;
  the next entry starts exactly where this one's slot ends (no gap, no overlap), so
  offsets never decrease within the rank; and the slot ends within the archive size.
\<close>

theorem layout_plan:
  assumes "archive_bytes flists < 2^64" "r < length flists" "i < length (flists ! r)"
  shows "(item_type (flists ! r ! i) = MFU_TYPE_DIR \<or> item_type (flists ! r ! i) = MFU_TYPE_LINK
            \<longrightarrow> fsizes (flists ! r) ! i = DTAR_header_sizes (flists ! r) ! i)
       \<and> (item_type (flists ! r ! i) = MFU_TYPE_FILE
            \<longrightarrow> unat (fsizes (flists ! r) ! i) =
                 unat (DTAR_header_sizes (flists ! r) ! i)
                 + round_up_512 (unat (item_size (flists ! r ! i))))
       \<and> unat (DTAR_offsets flists r ! 0) =
            sum_list (map unat (concat (map fsizes (take r flists))))
       \<and> (Suc i < length (flists ! r)
            \<longrightarrow> unat (DTAR_offsets flists r ! Suc i) =
                 unat (DTAR_offsets flists r ! i) + unat (fsizes (flists ! r) ! i))
       \<and> (\<forall>j\<le>i. unat (DTAR_offsets flists r ! j) \<le> unat (DTAR_offsets flists r ! i))
       \<and> unat (DTAR_offsets flists r ! i) + unat (fsizes (flists ! r) ! i)
            \<le> unat (archive_size flists)"
proof -
  let ?item = "flists ! r ! i"
  have slot: "unat (fsizes (flists ! r) ! i) = slot_bytes ?item"
    by (rule fsizes_nat [OF assms])
  have offs: "\<And>j. j < length (flists ! r) \<Longrightarrow>
      unat (DTAR_offsets flists r ! j) = sum_list (map slot_bytes (entries_before flists r j))"
    by (rule DTAR_offsets_nat [OF assms(1,2)])
  have 1: "item_type ?item = MFU_TYPE_DIR \<or> item_type ?item = MFU_TYPE_LINK
      \<longrightarrow> fsizes (flists ! r) ! i = DTAR_header_sizes (flists ! r) ! i"
    using assms(3) by (auto simp: fsizes_def DTAR_header_sizes_def entry_fsize_def entry_header_size_def)
  have 2: "item_type ?item = MFU_TYPE_FILE
      \<longrightarrow> unat (fsizes (flists ! r) ! i) =
          unat (DTAR_header_sizes (flists ! r) ! i) + round_up_512 (unat (item_size ?item))"
    using assms(3) slot
    by (simp add: DTAR_header_sizes_def entry_header_size_def encode_header_def slot_bytes_def)
  have 3: "unat (DTAR_offsets flists r ! 0) =
      sum_list (map unat (concat (map fsizes (take r flists))))"
  proof -
    have i0: "0 < length (flists ! r)" using assms(3) by auto
    have b: "sum_list (map slot_bytes (concat (take r flists))) < 2^64"
      using entries_before_bytes_le [OF assms(2), of 0] assms(1)
      by (simp add: entries_before_def)
    have "concat (map fsizes (take r flists)) = map entry_fsize (concat (take r flists))"
      by (simp add: fsizes_def [abs_def] map_concat)
    then have "map unat (concat (map fsizes (take r flists))) =
        map slot_bytes (concat (take r flists))"
      using map_entry_fsize_nat [OF b] by (simp only:)
    then show ?thesis by (simp add: offs [OF i0] entries_before_def)
  qed
  have 4: "Suc i < length (flists ! r)
      \<longrightarrow> unat (DTAR_offsets flists r ! Suc i) =
          unat (DTAR_offsets flists r ! i) + unat (fsizes (flists ! r) ! i)"
    using assms(3) by (simp add: offs slot entries_before_Suc)
  have 5: "\<forall>j\<le>i. unat (DTAR_offsets flists r ! j) \<le> unat (DTAR_offsets flists r ! i)"
    using assms(3) by (simp add: offs entries_before_mono)
  have 6: "unat (DTAR_offsets flists r ! i) + unat (fsizes (flists ! r) ! i)
      \<le> unat (archive_size flists)"
    using item_slot_bytes_le [OF assms(2,3)] assms
    by (simp add: offs slot archive_size_nat)
  from 1 2 3 4 5 6 show ?thesis by blast
qed


lemma ex_values:
  "fsizes [ex_dir, ex_file] = [512, 1536]"
  "fsizes [ex_link] = [1024]"
  "DTAR_offsets [[ex_dir, ex_file], [ex_link]] 0 = [0, 512]"
  "DTAR_offsets [[ex_dir, ex_file], [ex_link]] 1 = [2048]"
  "archive_size [[ex_dir, ex_file], [ex_link]] = 3072"
  "archive_bytes [[ex_dir, ex_file], [ex_link]] = 3072"
  by (simp_all add: fsizes_def DTAR_offsets_def local_offsets_def global_offset_def
      MPI_Scan_sum_def MPI_Allreduce_sum_def archive_size_def archive_bytes_def slot_bytes_def
      round_up_512_def local_offset_total_def entry_fsize_def encode_header_def
      fsize_padded_def ex_dir_def ex_file_def ex_link_def)

theorem layout_plan_witness:
  "archive_bytes [[ex_dir, ex_file], [ex_link]] < 2^64
   \<and> (1::nat) < length [[ex_dir, ex_file], [ex_link]]
   \<and> (0::nat) < length ([[ex_dir, ex_file], [ex_link]] ! 1)
   \<and> item_type ex_link = MFU_TYPE_LINK
   \<and> fsizes [ex_link] ! 0 = DTAR_header_sizes [ex_link] ! 0
   \<and> unat (DTAR_offsets [[ex_dir, ex_file], [ex_link]] 1 ! 0) = 2048"
proof -
  have h: "archive_bytes [[ex_dir, ex_file], [ex_link]] < 2^64"
    "(1::nat) < length [[ex_dir, ex_file], [ex_link]]"
    "(0::nat) < length ([[ex_dir, ex_file], [ex_link]] ! 1)"
    by (simp_all add: ex_values)
  have t: "item_type ex_link = MFU_TYPE_LINK" by (simp add: ex_link_def)
  from layout_plan [OF h] t h show ?thesis
    by (simp add: ex_values)
qed

section \<open>The range partition is contiguous and complete\<close>

lemma per_rank_nat:
  assumes "0 < ranks" "ranks < 2^31"
  shows "entries_per_rank entries ranks = of_nat (unat entries div nat ranks)"
  unfolding entries_per_rank_def using assms
  by (simp add: word_arith_nat_div [of entries] unat_woi)

lemma remainder_nat:
  assumes "0 < ranks" "ranks < 2^31"
  shows "entries_remainder entries ranks = of_nat (unat entries mod nat ranks)"
proof -
  have "unat entries mod nat ranks = unat entries - (unat entries div nat ranks) * nat ranks"
    by (simp add: minus_div_mult_eq_mod)
  moreover have "(unat entries div nat ranks) * nat ranks \<le> unat entries" by simp
  ultimately have "(of_nat (unat entries mod nat ranks) :: uint64_t) =
       of_nat (unat entries) - of_nat (unat entries div nat ranks) * of_nat (nat ranks)"
    by (simp add: of_nat_diff)
  then show ?thesis
    unfolding entries_remainder_def per_rank_nat[OF assms] using assms by simp
qed

lemma rank_lt_remainder:
  assumes "0 < ranks" "ranks < 2^31" "k < nat ranks"
  shows "((of_nat k :: uint64_t) < entries_remainder entries ranks) \<longleftrightarrow> k < unat entries mod nat ranks"
proof -
  have "unat entries mod nat ranks \<le> unat entries" by simp
  then have "unat entries mod nat ranks < 2^64" using unat_lt64 [of entries] by linarith
  moreover have "k < 2^64" using assms by simp
  ultimately show ?thesis
    using assms by (simp add: remainder_nat word_less_nat_alt unat_of_nat64)
qed

lemma div_succ_le:
  fixes E R :: nat
  assumes "0 < E mod R"
  shows "E div R + 1 \<le> E"
proof (cases "R = 0")
  case True
  then show ?thesis using assms by simp
next
  case False
  then have "E div R * 1 \<le> E div R * R" by (intro mult_le_mono2) simp
  moreover have "E = E div R * R + E mod R" by simp
  ultimately show ?thesis using assms by linarith
qed

lemma entry_count_nat:
  assumes "0 < ranks" "ranks < 2^31" "k < nat ranks"
  shows "unat (entry_count entries ranks (int k)) =
     (if k < unat entries mod nat ranks then unat entries div nat ranks + 1
      else unat entries div nat ranks)"
proof (cases "k < unat entries mod nat ranks")
  case True
  then have "unat entries div nat ranks + 1 \<le> unat entries"
    by (intro div_succ_le) linarith
  then have b: "unat entries div nat ranks + 1 < 2^64" using unat_lt64 [of entries] by linarith
  have "entry_count entries ranks (int k) = of_nat (unat entries div nat ranks + 1)"
    using True assms by (simp add: entry_count_def rank_lt_remainder per_rank_nat)
  then show ?thesis using True b by (simp only: unat_of_nat64 if_True)
next
  case False
  have "unat entries div nat ranks \<le> unat entries" by simp
  then have b: "unat entries div nat ranks < 2^64" using unat_lt64 [of entries] by linarith
  have "entry_count entries ranks (int k) = of_nat (unat entries div nat ranks)"
    using False assms by (simp add: entry_count_def rank_lt_remainder per_rank_nat)
  then show ?thesis using False b by (simp only: unat_of_nat64 if_False)
qed

lemma start_bound:
  fixes E R k :: nat
  assumes "k < R"
  shows "k * (E div R) + min k (E mod R) \<le> E"
proof -
  have "k * (E div R) \<le> R * (E div R)" using assms by (intro mult_le_mono1) simp
  moreover have "E = R * (E div R) + E mod R" by simp
  moreover have "min k (E mod R) \<le> E mod R" by simp
  ultimately show ?thesis by linarith
qed

lemma entry_start_nat:
  assumes "0 < ranks" "ranks < 2^31" "k < nat ranks"
  shows "unat (entry_start entries ranks (int k)) =
     k * (unat entries div nat ranks) + min k (unat entries mod nat ranks)"
proof -
  let ?E = "unat entries" and ?R = "nat ranks"
  have "k * (?E div ?R) + min k (?E mod ?R) \<le> ?E" by (rule start_bound [OF assms(3)])
  then have b: "k * (?E div ?R) + min k (?E mod ?R) < 2^64"
    using unat_lt64 [of entries] by linarith
  have "entry_start entries ranks (int k) = of_nat (k * (?E div ?R) + min k (?E mod ?R))"
  proof (cases "k < ?E mod ?R")
    case True
    then show ?thesis using assms
      by (simp add: entry_start_def entry_count_def rank_lt_remainder per_rank_nat
          algebra_simps min_def)
  next
    case False
    then have "(of_nat (k - ?E mod ?R) :: uint64_t) = of_nat k - of_nat (?E mod ?R)"
      by (simp add: of_nat_diff)
    then show ?thesis using False assms
      apply (simp add: entry_start_def entry_count_def rank_lt_remainder min_def)
      apply (simp add: per_rank_nat remainder_nat algebra_simps)
      done
  qed
  then show ?thesis using b by (simp only: unat_of_nat64)
qed


lemma sum_counts:
  fixes q r :: nat
  shows "(\<Sum>j<k. if j < r then q + 1 else q) = k * q + min k r"
  by (induction k) (auto simp: min_def)

lemma entry_count_prefix_sum:
  assumes "0 < ranks" "ranks < 2^31" "k \<le> nat ranks"
  shows "(\<Sum>j<k. unat (entry_count entries ranks (int j))) =
     k * (unat entries div nat ranks) + min k (unat entries mod nat ranks)"
proof -
  have "(\<Sum>j<k. unat (entry_count entries ranks (int j))) =
     (\<Sum>j<k. if j < unat entries mod nat ranks then unat entries div nat ranks + 1
        else unat entries div nat ranks)"
    using assms by (intro sum.cong refl entry_count_nat) auto
  then show ?thesis by (simp only: sum_counts)
qed

lemma entry_start_prefix_sum:
  assumes "0 < ranks" "ranks < 2^31" "k < nat ranks"
  shows "unat (entry_start entries ranks (int k)) =
     (\<Sum>j<k. unat (entry_count entries ranks (int j)))"
  using assms by (simp add: entry_start_nat entry_count_prefix_sum)

lemma entry_count_total:
  assumes "0 < ranks" "ranks < 2^31"
  shows "(\<Sum>k<nat ranks. unat (entry_count entries ranks (int k))) = unat entries"
proof -
  have "unat entries mod nat ranks < nat ranks" using assms by simp
  then have "min (nat ranks) (unat entries mod nat ranks) = unat entries mod nat ranks"
    by simp
  then show ?thesis using assms by (simp add: entry_count_prefix_sum)
qed

lemma entry_range_ordered:
  assumes "0 < ranks" "ranks < 2^31" "j < k" "k < nat ranks"
  shows "unat (entry_start entries ranks (int j)) + unat (entry_count entries ranks (int j))
     \<le> unat (entry_start entries ranks (int k))"
proof -
  let ?c = "\<lambda>i. unat (entry_count entries ranks (int i))"
  have "unat (entry_start entries ranks (int j)) + ?c j = (\<Sum>i<Suc j. ?c i)"
    using assms by (simp add: entry_start_prefix_sum)
  also have "\<dots> \<le> (\<Sum>i<k. ?c i)"
    using assms by (intro sum_mono2) auto
  also have "\<dots> = unat (entry_start entries ranks (int k))"
    using assms by (simp add: entry_start_prefix_sum)
  finally show ?thesis .
qed

lemma entry_range_disjoint:
  assumes "0 < ranks" "ranks < 2^31" "j < nat ranks" "k < nat ranks" "j \<noteq> k"
  shows "entry_range entries ranks j \<inter> entry_range entries ranks k = {}"
proof (cases "j < k")
  case True
  from entry_range_ordered [OF assms(1,2) True assms(4), of entries]
  show ?thesis by (auto simp: entry_range_def)
next
  case False
  then have "k < j" using assms by simp
  from entry_range_ordered [OF assms(1,2) this assms(3), of entries]
  show ?thesis by (auto simp: entry_range_def)
qed

text \<open>
  Claim C7.  With \<open>E\<close> entries and \<open>R\<close> ranks (\<open>R\<close> a positive C int), the partition
  computed by every rank \<open>k < R\<close> gives \<open>E div R + 1\<close> entries to the ranks below
  \<open>E mod R\<close> and \<open>E div R\<close> entries to the others; the start of a rank is the sum of
  the counts of all lower ranks, the counts sum to \<open>E\<close>, and the ranges of two
  different ranks are disjoint.
\<close>

theorem range_partition_contiguous:
  assumes "0 < ranks" "ranks < 2^31"
  shows "(\<forall>k<nat ranks.
            range_partition entries ranks (int k) =
              Some (entry_start entries ranks (int k), entry_count entries ranks (int k))
          \<and> unat (entry_count entries ranks (int k)) =
              (if k < unat entries mod nat ranks then unat entries div nat ranks + 1
               else unat entries div nat ranks)
          \<and> unat (entry_start entries ranks (int k)) =
              (\<Sum>j<k. unat (entry_count entries ranks (int j))))
       \<and> (\<Sum>k<nat ranks. unat (entry_count entries ranks (int k))) = unat entries
       \<and> (\<forall>j<nat ranks. \<forall>k<nat ranks. j \<noteq> k \<longrightarrow>
            entry_range entries ranks j \<inter> entry_range entries ranks k = {})"
proof -
  have "unat (word_of_int ranks :: uint64_t) = nat ranks"
    using assms by (simp add: unat_woi)
  then have nz: "(word_of_int ranks :: uint64_t) \<noteq> 0"
    using assms by (metis nat_0_iff not_le unat_0)
  have per_rank: "\<forall>k<nat ranks.
            range_partition entries ranks (int k) =
              Some (entry_start entries ranks (int k), entry_count entries ranks (int k))
          \<and> unat (entry_count entries ranks (int k)) =
              (if k < unat entries mod nat ranks then unat entries div nat ranks + 1
               else unat entries div nat ranks)
          \<and> unat (entry_start entries ranks (int k)) =
              (\<Sum>j<k. unat (entry_count entries ranks (int j)))"
    using nz entry_count_nat [OF assms] entry_start_prefix_sum [OF assms]
    by (simp add: range_partition_def)
  have disjoint: "\<forall>j<nat ranks. \<forall>k<nat ranks. j \<noteq> k \<longrightarrow>
            entry_range entries ranks j \<inter> entry_range entries ranks k = {}"
    using entry_range_disjoint [OF assms] by blast
  from per_rank entry_count_total [OF assms] disjoint show ?thesis by blast
qed

theorem range_partition_contiguous_witness:
  "(0::int) < 3 \<and> (3::int) < 2^31
   \<and> range_partition 10 3 0 = Some (0, 4)
   \<and> range_partition 10 3 1 = Some (4, 3)
   \<and> range_partition 10 3 2 = Some (7, 3)
   \<and> entry_range 10 3 0 \<inter> entry_range 10 3 2 = {}"
proof -
  have h: "(0::int) < 3" "(3::int) < 2^31" by simp_all
  have r: "range_partition 10 3 0 = Some (0, 4)" "range_partition 10 3 1 = Some (4, 3)"
    "range_partition 10 3 2 = Some (7, 3)"
    by (simp_all add: range_partition_def entry_start_def entry_count_def
        entries_remainder_def entries_per_rank_def)
  from range_partition_contiguous [OF h, of 10]
  have "\<forall>j<nat 3. \<forall>k<nat 3. j \<noteq> k \<longrightarrow>
            entry_range 10 3 j \<inter> entry_range 10 3 k = {}"
    by (rule conjunct2 [THEN conjunct2])
  from this [rule_format, of 0 2] have "entry_range 10 3 0 \<inter> entry_range 10 3 2 = {}"
    by simp
  with r h show ?thesis by simp
qed

section \<open>Task enumeration\<close>

lemma ceil_div_alt:
  assumes "0 < b"
  shows "ceil_div a b = a div b + (if a mod b = 0 then 0 else 1)"
proof -
  define q where "q = a div b"
  define m where "m = a mod b"
  have a: "a = q * b + m" and m: "m < b" using assms by (simp_all add: q_def m_def)
  show ?thesis
  proof (cases "m = 0")
    case True
    then have "a + b - 1 = q * b + (b - 1)" using a assms by simp
    moreover have "(q * b + (b - 1)) div b = q"
      using assms by (subst div_mult_self3) simp_all
    ultimately show ?thesis using True by (simp add: ceil_div_def q_def m_def)
  next
    case False
    then have "a + b - 1 = (q + 1) * b + (m - 1)" using a by simp
    moreover have "((q + 1) * b + (m - 1)) div b = q + 1"
      using m assms by (subst div_mult_self3) simp_all
    ultimately show ?thesis using False by (simp add: ceil_div_def q_def m_def)
  qed
qed

lemma chunk_count_alt:
  assumes "0 < c"
  shows "chunk_count c s = (if s mod c \<noteq> 0 \<or> s div c = 0 then s div c + 1 else s div c)"
proof -
  have "s div c = 0 \<Longrightarrow> s mod c = 0 \<Longrightarrow> s = 0"
    using div_mult_mod_eq [of s c] by simp
  then show ?thesis using assms by (auto simp: chunk_count_def ceil_div_alt)
qed

lemma unat_nonzero: "(w :: uint64_t) \<noteq> 0 \<Longrightarrow> 0 < unat w"
  by (simp add: unat_gt_0)

lemma num_chunks_word:
  "fsize div chunk_size = (of_nat (unat fsize div unat chunk_size) :: uint64_t)"
  by (rule word_arith_nat_div)

lemma num_chunks_nat:
  "unat (fsize div chunk_size :: uint64_t) = unat fsize div unat chunk_size"
  by (rule unat_div)

lemma chunks_times_size_nat:
  "unat (fsize div chunk_size * chunk_size :: uint64_t) = unat fsize div unat chunk_size * unat chunk_size"
proof -
  have "unat fsize div unat chunk_size * unat chunk_size \<le> unat fsize" by simp
  then have "unat fsize div unat chunk_size * unat chunk_size < 2^64"
    using unat_lt64 [of fsize] by linarith
  then have "unat (fsize div chunk_size) * unat chunk_size < 2^64"
    by (simp add: num_chunks_nat)
  then have "unat (fsize div chunk_size * chunk_size) = unat (fsize div chunk_size) * unat chunk_size"
    using unat_mult_lem [of "fsize div chunk_size" chunk_size] by simp
  then show ?thesis by (simp add: num_chunks_nat)
qed

lemma chunk_indices_nat:
  assumes "chunk_size \<noteq> 0"
  shows "chunk_indices chunk_size fsize =
     map of_nat [0 ..< chunk_count (unat chunk_size) (unat fsize)]"
proof -
  let ?S = "unat fsize" and ?C = "unat chunk_size"
  have C: "0 < ?C" using assms by (rule unat_nonzero)
  have lt: "(fsize div chunk_size * chunk_size < fsize) \<longleftrightarrow> ?S mod ?C \<noteq> 0"
  proof -
    have "?S = ?S div ?C * ?C + ?S mod ?C" by simp
    then have "(?S div ?C * ?C < ?S) \<longleftrightarrow> ?S mod ?C \<noteq> 0" by linarith
    then show ?thesis by (simp add: word_less_nat_alt chunks_times_size_nat)
  qed
  have "(fsize div chunk_size = 0) \<longleftrightarrow> unat (fsize div chunk_size) = 0"
    by (simp add: unat_eq_zero)
  then have z: "(fsize div chunk_size = 0) \<longleftrightarrow> ?S div ?C = 0"
    by (simp only: num_chunks_nat)
  show ?thesis
    unfolding chunk_indices_def Let_def lt z num_chunks_nat chunk_count_alt [OF C]
    by (auto simp: num_chunks_word [of fsize chunk_size])
qed

lemma length_copy_operations:
  assumes "chunk_size \<noteq> 0"
  shows "length (copy_operations chunk_size item eo hs) =
     chunk_count (unat chunk_size) (unat (item_size item))"
  using assms by (simp add: copy_operations_def chunk_indices_nat)

lemma nth_copy_operations:
  assumes "chunk_size \<noteq> 0" "k < chunk_count (unat chunk_size) (unat (item_size item))"
  shows "copy_operations chunk_size item eo hs ! k =
     \<lparr>file_size = item_size item, chunk_index = of_nat k, offset = eo + hs,
      code = COPY_DATA, operand = item_name item\<rparr>"
  using assms by (simp add: copy_operations_def chunk_indices_nat)

lemma and_then_Inr:
  "and_then m f = Inr y \<longleftrightarrow> (\<exists>x. m = Inr x \<and> f x = Inr y)"
  by (cases m) (simp_all add: and_then_def)

lemma collect_map_Inr:
  "collect (map f xs) = Inr q \<Longrightarrow>
   \<exists>gs. length gs = length xs \<and> q = concat gs \<and> (\<forall>i<length xs. f (xs ! i) = Inr (gs ! i))"
proof (induction xs arbitrary: q)
  case Nil
  then show ?case by simp
next
  case (Cons x xs)
  from Cons.prems obtain g q' where g: "f x = Inr g" and q': "collect (map f xs) = Inr q'"
    and q: "q = g @ q'"
    by (auto simp: and_then_Inr)
  from Cons.IH [OF q'] obtain gs where gs: "length gs = length xs" "q' = concat gs"
    "\<forall>i<length xs. f (xs ! i) = Inr (gs ! i)" by blast
  have "\<forall>i<length (x # xs). f ((x # xs) ! i) = Inr ((g # gs) ! i)"
    using g gs(3) by (auto simp: nth_Cons split: nat.splits)
  with gs q show ?case by (intro exI [of _ "g # gs"]) simp
qed

lemma enqueue_operation_Inr:
  "enqueue_operation m x = Inr g \<longleftrightarrow>
   (\<exists>s. DTAR_encode_operation m (code x) (operand x) (file_size x) (chunk_index x) (offset x)
         = Inr s \<and> g = [s])"
  by (auto simp: enqueue_operation_def and_then_Inr)

lemma collect_enqueue_operations:
  "collect (map (enqueue_operation m) ops) = Inr q \<Longrightarrow>
   length q = length ops \<and>
   (\<forall>k<length ops. DTAR_encode_operation m (code (ops ! k)) (operand (ops ! k))
        (file_size (ops ! k)) (chunk_index (ops ! k)) (offset (ops ! k)) = Inr (q ! k))"
proof (induction ops arbitrary: q)
  case Nil
  then show ?case by simp
next
  case (Cons x xs)
  from Cons.prems obtain s q' where s: "DTAR_encode_operation m (code x) (operand x)
        (file_size x) (chunk_index x) (offset x) = Inr s"
    and q': "collect (map (enqueue_operation m) xs) = Inr q'" and q: "q = s # q'"
    by (auto simp: and_then_Inr enqueue_operation_Inr)
  from Cons.IH [OF q'] s q show ?case
    by (auto simp: nth_Cons split: nat.splits)
qed


lemma enqueue_item_Inr:
  assumes "enqueue_item m chunk_size item eo hs = Inr g" "m \<le> 2^31"
  shows "(item_type item \<noteq> MFU_TYPE_FILE \<longrightarrow> g = []) \<and>
     (item_type item = MFU_TYPE_FILE \<longrightarrow>
        chunk_size \<noteq> 0 \<and>
        length g = chunk_count (unat chunk_size) (unat (item_size item)) \<and>
        (\<forall>k<length g. DTAR_decode_operation (g ! k) spare =
            Inr \<lparr>file_size = item_size item, chunk_index = of_nat k, offset = eo + hs,
                 code = COPY_DATA, operand = item_name item\<rparr>))"
proof (cases "item_type item = MFU_TYPE_FILE")
  case False
  with assms(1) show ?thesis by (simp add: enqueue_item_def)
next
  case True
  with assms(1) have cs: "chunk_size \<noteq> 0"
    and c: "collect (map (enqueue_operation m) (copy_operations chunk_size item eo hs)) = Inr g"
    by (auto simp: enqueue_item_def split: if_splits)
  let ?ops = "copy_operations chunk_size item eo hs"
  from collect_enqueue_operations [OF c]
  have len: "length g = length ?ops"
    and enc: "\<And>k. k < length ?ops \<Longrightarrow>
      DTAR_encode_operation m (code (?ops ! k)) (operand (?ops ! k))
        (file_size (?ops ! k)) (chunk_index (?ops ! k)) (offset (?ops ! k)) = Inr (g ! k)"
    by simp_all
  have n: "length ?ops = chunk_count (unat chunk_size) (unat (item_size item))"
    by (rule length_copy_operations [OF cs])
  have "DTAR_decode_operation (g ! k) spare =
      Inr \<lparr>file_size = item_size item, chunk_index = of_nat k, offset = eo + hs,
           code = COPY_DATA, operand = item_name item\<rparr>" if k: "k < length g" for k
  proof -
    from k len have k': "k < length ?ops" by simp
    then have "k < chunk_count (unat chunk_size) (unat (item_size item))" using n by simp
    from nth_copy_operations [OF cs this, of eo hs] decode_after_encode [OF enc [OF k'] assms(2)]
    show ?thesis by simp
  qed
  with True cs len n show ?thesis by simp
qed

text \<open>
  Claim C4.  When \<^verbatim>\<open>DTAR_enqueue_copy\<close> runs to its end, the queue is the
  concatenation of one group of strings per list entry, in list order.  The group of a
  directory, a symlink or any other entry that is not a regular file is empty.  The
  group of a regular file of size \<open>S\<close> has \<open>max(1, \<lceil>S / chunk_size\<rceil>)\<close> strings, and the
  \<open>k\<close>-th of them decodes to the work item with the file's size, chunk index \<open>k\<close>, the
  offset \<^verbatim>\<open>DTAR_offsets[idx] + DTAR_header_sizes[idx]\<close> of the file's first data byte,
  the code \<^verbatim>\<open>COPY_DATA\<close> and the file's name, whatever the buffer holds after the
  string.
\<close>

theorem enqueue_copy_chunks:
  assumes "DTAR_enqueue_copy m chunk_size flist offsets header_sizes = Inr queue"
    and "m \<le> 2^31"
  shows "\<exists>groups. length groups = length flist \<and> queue = concat groups \<and>
     (\<forall>idx<length flist.
        (item_type (flist ! idx) \<noteq> MFU_TYPE_FILE \<longrightarrow> groups ! idx = []) \<and>
        (item_type (flist ! idx) = MFU_TYPE_FILE \<longrightarrow>
           length (groups ! idx) =
             chunk_count (unat chunk_size) (unat (item_size (flist ! idx))) \<and>
           (\<forall>k<length (groups ! idx). \<forall>spare. DTAR_decode_operation (groups ! idx ! k) spare =
              Inr \<lparr>file_size = item_size (flist ! idx), chunk_index = of_nat k,
                   offset = offsets ! idx + header_sizes ! idx,
                   code = COPY_DATA, operand = item_name (flist ! idx)\<rparr>)))"
proof -
  let ?f = "\<lambda>idx. enqueue_item m chunk_size (flist ! idx) (offsets ! idx) (header_sizes ! idx)"
  from assms(1) have "collect (map ?f [0 ..< length flist]) = Inr queue"
    by (simp add: DTAR_enqueue_copy_def)
  from collect_map_Inr [OF this] obtain groups where
    g: "length groups = length flist" "queue = concat groups"
    "\<forall>i<length flist. ?f i = Inr (groups ! i)"
    by auto
  have "\<forall>idx<length flist.
        (item_type (flist ! idx) \<noteq> MFU_TYPE_FILE \<longrightarrow> groups ! idx = []) \<and>
        (item_type (flist ! idx) = MFU_TYPE_FILE \<longrightarrow>
           length (groups ! idx) =
             chunk_count (unat chunk_size) (unat (item_size (flist ! idx))) \<and>
           (\<forall>k<length (groups ! idx). \<forall>spare. DTAR_decode_operation (groups ! idx ! k) spare =
              Inr \<lparr>file_size = item_size (flist ! idx), chunk_index = of_nat k,
                   offset = offsets ! idx + header_sizes ! idx,
                   code = COPY_DATA, operand = item_name (flist ! idx)\<rparr>))"
  proof (intro allI impI)
    fix idx assume "idx < length flist"
    with g(3) have "?f idx = Inr (groups ! idx)" by simp
    from enqueue_item_Inr [OF this assms(2)]
    show "(item_type (flist ! idx) \<noteq> MFU_TYPE_FILE \<longrightarrow> groups ! idx = []) \<and>
        (item_type (flist ! idx) = MFU_TYPE_FILE \<longrightarrow>
           length (groups ! idx) =
             chunk_count (unat chunk_size) (unat (item_size (flist ! idx))) \<and>
           (\<forall>k<length (groups ! idx). \<forall>spare. DTAR_decode_operation (groups ! idx ! k) spare =
              Inr \<lparr>file_size = item_size (flist ! idx), chunk_index = of_nat k,
                   offset = offsets ! idx + header_sizes ! idx,
                   code = COPY_DATA, operand = item_name (flist ! idx)\<rparr>))"
      by blast
  qed
  with g(1,2) show ?thesis by blast
qed

lemma enqueue_example:
  "DTAR_enqueue_copy 4096 256 [ex_dir, ex_file] [0, 512] [512, 512] =
     Inr [''513:0:1024:0:3:d/f'', ''513:1:1024:0:3:d/f'', ''513:2:1024:0:3:d/f'']"
  by (simp add: DTAR_enqueue_copy_def enqueue_item_def ex_dir_def ex_file_def
      copy_operations_def chunk_indices_def enqueue_operation_def and_then_def
      DTAR_encode_operation_def operation_text_def printf_u64_def printf_d_def
      COPY_DATA_def decimal.simps digit_char_def char_of_def bit_0 upt_conv_Cons)

theorem enqueue_copy_chunks_witness:
  "DTAR_enqueue_copy 4096 256 [ex_dir, ex_file] [0, 512] [512, 512] =
     Inr [''513:0:1024:0:3:d/f'', ''513:1:1024:0:3:d/f'', ''513:2:1024:0:3:d/f'']
   \<and> (4096 :: nat) \<le> 2^31
   \<and> (\<exists>groups. length groups = length [ex_dir, ex_file]
        \<and> [''513:0:1024:0:3:d/f'', ''513:1:1024:0:3:d/f'', ''513:2:1024:0:3:d/f'']
            = concat groups
        \<and> groups ! 0 = []
        \<and> length (groups ! 1) = chunk_count 256 513)"
proof -
  have m: "(4096 :: nat) \<le> 2^31" by simp
  have t: "item_type ([ex_dir, ex_file] ! 0) \<noteq> MFU_TYPE_FILE"
    "item_type ([ex_dir, ex_file] ! 1) = MFU_TYPE_FILE"
    "unat (item_size ([ex_dir, ex_file] ! 1)) = 513"
    by (simp_all add: ex_dir_def ex_file_def)
  from enqueue_copy_chunks [OF enqueue_example m] obtain groups where
    g: "length groups = length [ex_dir, ex_file]"
      "[''513:0:1024:0:3:d/f'', ''513:1:1024:0:3:d/f'', ''513:2:1024:0:3:d/f''] = concat groups"
    and a: "\<forall>idx<length [ex_dir, ex_file].
        (item_type ([ex_dir, ex_file] ! idx) \<noteq> MFU_TYPE_FILE \<longrightarrow> groups ! idx = []) \<and>
        (item_type ([ex_dir, ex_file] ! idx) = MFU_TYPE_FILE \<longrightarrow>
           length (groups ! idx) =
             chunk_count (unat (256 :: uint64_t)) (unat (item_size ([ex_dir, ex_file] ! idx))) \<and>
           (\<forall>k<length (groups ! idx). \<forall>spare. DTAR_decode_operation (groups ! idx ! k) spare =
              Inr \<lparr>file_size = item_size ([ex_dir, ex_file] ! idx), chunk_index = of_nat k,
                   offset = [0, 512] ! idx + [512, 512] ! idx,
                   code = COPY_DATA, operand = item_name ([ex_dir, ex_file] ! idx)\<rparr>))"
    by blast
  from a [rule_format, of 0] t(1) have g0: "groups ! 0 = []" by simp
  from a [rule_format, of 1] t(2,3) have g1: "length (groups ! 1) = chunk_count 256 513"
    by simp
  from g g0 g1 enqueue_example m show ?thesis by blast
qed

section \<open>Copying a chunk\<close>

declare copy_loop.simps [simp del]

lemma copy_loop_once:
  assumes "0 < c"
  shows "copy_loop c content pos [] = take c (drop pos content)"
proof -
  let ?buf = "take c (drop pos content)"
  show ?thesis
  proof (cases "?buf = []")
    case True
    then show ?thesis using assms by (subst copy_loop.simps) (simp add: mfu_read_def)
  next
    case False
    have step: "copy_loop c content pos [] = copy_loop c content (pos + length ?buf) ?buf"
      using False assms by (subst copy_loop.simps) (simp add: mfu_read_def Let_def)
    show ?thesis
    proof (cases "length ?buf < c")
      case True
      then have "length content - pos < c" by simp
      then have "drop (pos + length ?buf) content = []" by simp
      then have "copy_loop c content (pos + length ?buf) ?buf = ?buf"
        using True by (subst copy_loop.simps) (simp add: mfu_read_def Let_def)
      with step show ?thesis by simp
    next
      case False
      then have "copy_loop c content (pos + length ?buf) ?buf = ?buf"
        by (subst copy_loop.simps) simp
      with step show ?thesis by simp
    qed
  qed
qed

lemma padding_nat: "padding fsize = 512 - int (unat fsize mod 512)"
proof -
  have m: "unat (fsize mod 512) = unat fsize mod 512" by (simp add: unat_mod)
  have "unat fsize mod 512 < (512 :: nat)" by simp
  also have "(512 :: nat) < 2^31" by simp
  finally have lt: "unat (fsize mod 512) < 2^31" by (simp only: m)
  have "(ucast (fsize mod 512) :: c_int) = of_nat (unat (fsize mod 512))"
    by (simp only: of_nat_unat)
  then have "sint (ucast (fsize mod 512) :: c_int) = int (unat (fsize mod 512))"
    using sint_of_nat_small [OF lt] by simp
  then show ?thesis by (simp add: padding_def m)
qed

lemma padding_bytes:
  "(if padding fsize > 0 \<and> padding fsize \<noteq> 512 then replicate (nat (padding fsize)) (0 :: 8 word) else [])
     = replicate ((512 - unat fsize mod 512) mod 512) 0"
proof -
  define m where "m = unat fsize mod 512"
  have m: "m < 512" by (simp add: m_def)
  have p: "padding fsize = 512 - int m" by (simp add: padding_nat m_def)
  show ?thesis
  proof (cases "m = 0")
    case True
    then show ?thesis unfolding p m_def [symmetric] by simp
  next
    case False
    with m have "nat (512 - int m) = 512 - m" "(512 - m) mod 512 = 512 - m" by simp_all
    with False m show ?thesis unfolding p m_def [symmetric] by simp
  qed
qed

lemma remainder_nat64:
  "unat (fsize - chunk_size * (fsize div chunk_size) :: uint64_t) = unat fsize mod unat chunk_size"
proof -
  have "fsize - chunk_size * (fsize div chunk_size) = fsize mod chunk_size"
    by (simp add: minus_mult_div_eq_mod)
  then show ?thesis by (simp add: unat_mod)
qed

lemma last_chunk_nat:
  "last_chunk chunk_size fsize =
     (if unat fsize mod unat chunk_size \<noteq> 0 then of_nat (unat fsize div unat chunk_size)
      else of_nat (unat fsize div unat chunk_size) - 1)"
proof -
  have "(fsize - chunk_size * (fsize div chunk_size) \<noteq> 0) \<longleftrightarrow>
      unat (fsize - chunk_size * (fsize div chunk_size)) \<noteq> 0"
    by (simp add: unat_eq_zero)
  then have r: "(fsize - chunk_size * (fsize div chunk_size) \<noteq> 0) \<longleftrightarrow>
      unat fsize mod unat chunk_size \<noteq> 0"
    by (simp only: remainder_nat64)
  show ?thesis unfolding last_chunk_def Let_def r
    by (simp add: num_chunks_word [of fsize chunk_size])
qed

lemma of_nat_eq_64: "a < 2^64 \<Longrightarrow> b < 2^64 \<Longrightarrow> ((of_nat a :: uint64_t) = of_nat b) \<longleftrightarrow> a = b"
  by (metis unat_of_nat64)

lemma chunk_count_le: 
  assumes "0 < c" "k < chunk_count c s"
  shows "k * c \<le> s"
proof -
  have "k \<le> s div c"
    using assms by (auto simp: chunk_count_alt split: if_splits)
  then have "k * c \<le> s div c * c" by (rule mult_le_mono1)
  also have "\<dots> \<le> s" by simp
  finally show ?thesis .
qed

lemma chunk_count_cover:
  assumes "0 < c"
  shows "s \<le> chunk_count c s * c"
proof -
  define q where "q = s div c"
  define r where "r = s mod c"
  have s: "s = q * c + r" and r: "r < c" using assms by (simp_all add: q_def r_def)
  have "chunk_count c s = (if r \<noteq> 0 \<or> q = 0 then q + 1 else q)"
    using assms by (simp add: chunk_count_alt q_def r_def)
  then show ?thesis using s r by (auto simp: algebra_simps)
qed

lemma is_last_chunk:
  assumes "chunk_size \<noteq> 0" "k < chunk_count (unat chunk_size) (unat fsize)"
  shows "((of_nat k :: uint64_t) = last_chunk chunk_size fsize) \<longleftrightarrow>
     (fsize \<noteq> 0 \<and> Suc k = chunk_count (unat chunk_size) (unat fsize))"
proof -
  let ?S = "unat fsize" and ?C = "unat chunk_size"
  have C: "0 < ?C" using assms(1) by (rule unat_nonzero)
  have S: "?S < 2^64" by (rule unat_lt64)
  have q: "?S div ?C \<le> ?S" by simp
  have kS: "k \<le> ?S div ?C" using assms(2) C by (auto simp: chunk_count_alt split: if_splits)
  then have k: "k < 2^64" using q S by linarith
  have z: "fsize \<noteq> 0 \<longleftrightarrow> ?S \<noteq> 0" by (simp add: unat_eq_zero)
  show ?thesis
  proof (cases "?S mod ?C \<noteq> 0")
    case True
    then have "?S \<noteq> 0" by (metis mod_0)
    moreover have "?S div ?C < 2^64" using q S by linarith
    ultimately show ?thesis using True k C
      by (simp add: last_chunk_nat chunk_count_alt of_nat_eq_64 z)
  next
    case False
    show ?thesis
    proof (cases "?S div ?C = 0")
      case True
      with False have S0: "?S = 0" using div_mult_mod_eq [of ?S ?C] by simp
      from True kS have "k = 0" by simp
      then show ?thesis using False True S0 z by (simp add: last_chunk_nat)
    next
      case d: False
      then have S0: "?S \<noteq> 0" by (metis div_0)
      have "(of_nat (?S div ?C) - 1 :: uint64_t) = of_nat (?S div ?C - 1)"
        using d by (simp add: of_nat_diff)
      then have lc: "last_chunk chunk_size fsize = of_nat (?S div ?C - 1)"
        using False by (simp only: last_chunk_nat if_False simp_thms)
      have cc: "chunk_count ?C ?S = ?S div ?C"
        using False d C by (simp add: chunk_count_alt)
      have "?S div ?C - 1 < 2^64" using q S by linarith
      then have "((of_nat k :: uint64_t) = of_nat (?S div ?C - 1)) \<longleftrightarrow> k = ?S div ?C - 1"
        using k by (simp only: of_nat_eq_64)
      also have "\<dots> \<longleftrightarrow> Suc k = ?S div ?C" using d by linarith
      finally show ?thesis using S0 by (simp only: lc cc z simp_thms)
    qed
  qed
qed

lemma padding_written_alt:
  "padding_written chunk_size op =
     (if chunk_index op = last_chunk chunk_size (file_size op)
      then replicate ((512 - unat (file_size op) mod 512) mod 512) 0 else [])"
  unfolding padding_written_def by (simp only: padding_bytes)

lemma padding_written_chunk:
  assumes "chunk_size \<noteq> 0" "k < chunk_count (unat chunk_size) (unat fsz)"
  shows "padding_written chunk_size
       \<lparr>file_size = fsz, chunk_index = of_nat k, offset = d, code = c, operand = nm\<rparr> =
     (if Suc k = chunk_count (unat chunk_size) (unat fsz)
      then replicate ((512 - unat fsz mod 512) mod 512) 0 else [])"
proof (cases "fsz = 0")
  case True
  then show ?thesis by (simp add: padding_written_alt)
next
  case False
  then show ?thesis
    using is_last_chunk [OF assms] by (simp add: padding_written_alt)
qed

lemma sint_uint64: "sint (w :: uint64_t) = signed_take_bit 63 (uint w)"
  unfolding sint_uint by simp

lemma sint_small:
  assumes "unat (w :: uint64_t) < 2^63"
  shows "sint w = int (unat w)"
proof -
  have "int (unat w) < int (2^63)" using assms by (simp only: of_nat_less_iff)
  then have "uint w < 2^63" by simp
  moreover have "- (2^63) \<le> uint w"
  proof -
    have "(0::int) \<le> uint w" by simp
    moreover have "- (2^63) \<le> (0::int)" by simp
    ultimately show ?thesis by (rule order_trans [rotated])
  qed
  ultimately have "signed_take_bit 63 (uint w) = uint w"
    by (rule signed_take_bit_int_eq_self [rotated])
  then have "sint w = uint w" by (simp only: sint_uint64)
  then show ?thesis by simp
qed

lemma sint_large:
  assumes "2^63 \<le> unat (w :: uint64_t)"
  shows "sint w < 0"
proof -
  have "int (2^63) \<le> int (unat w)" using assms by (simp only: of_nat_le_iff)
  then have "(2::int)^63 \<le> uint w" by simp
  then have "signed_take_bit 63 (uint w) \<le> uint w - 2 ^ Suc 63"
    by (rule signed_take_bit_int_less_eq)
  then have a: "sint w \<le> uint w - 2 ^ Suc 63" by (simp only: sint_uint64)
  have "uint w < 2 ^ LENGTH(64)" by (rule uint_lt2p)
  then have b: "uint w < 2 ^ Suc 63" by simp
  from a b show ?thesis by linarith
qed

lemma mfu_lseek_small: "unat offs < 2^63 \<Longrightarrow> mfu_lseek pos offs = unat offs"
  by (simp add: mfu_lseek_def sint_small)

lemma mfu_lseek_large: "2^63 \<le> unat offs \<Longrightarrow> mfu_lseek pos offs = pos"
  by (simp add: mfu_lseek_def sint_large)

lemma perform_copy_chunk:
  assumes cs: "chunk_size \<noteq> 0" and len: "length content = unat fsz"
    and k: "k < chunk_count (unat chunk_size) (unat fsz)"
    and fit: "unat d + unat fsz < 2^63"
  shows "perform_copy chunk_size content fd_pos
       \<lparr>file_size = fsz, chunk_index = of_nat k, offset = d, code = c, operand = nm\<rparr> =
     Inr \<lparr>out_pos = unat d + k * unat chunk_size,
          out_data = take (unat chunk_size) (drop (k * unat chunk_size) content),
          out_padding = (if Suc k = chunk_count (unat chunk_size) (unat fsz)
                         then replicate ((512 - unat fsz mod 512) mod 512) 0 else [])\<rparr>"
proof -
  let ?C = "unat chunk_size" and ?S = "unat fsz"
  have C: "0 < ?C" using cs by (rule unat_nonzero)
  have kC: "k * ?C \<le> ?S" by (rule chunk_count_le [OF C k])
  then have b63: "k * ?C < 2^63" using fit by linarith
  have "(2::nat)^63 \<le> 2^64" by simp
  then have b: "k * ?C < 2^64" using b63 by linarith
  have "(of_nat (k * ?C) :: uint64_t) = of_nat k * of_nat ?C" by (rule of_nat_mult)
  also have "(of_nat ?C :: uint64_t) = chunk_size" by simp
  finally have "chunk_size * of_nat k = of_nat (k * ?C)" by (metis mult.commute)
  then have i: "unat (chunk_size * of_nat k) = k * ?C" using b by (simp only: unat_of_nat64)
  have s63: "unat d + unat (chunk_size * of_nat k) < 2^63" using i kC fit by linarith
  then have "unat d + unat (chunk_size * of_nat k) < 2^64"
    using \<open>(2::nat)^63 \<le> 2^64\<close> by linarith
  then have p: "unat (d + chunk_size * of_nat k) = unat d + k * ?C"
    using i by (simp add: unat_add64)
  have si: "mfu_lseek 0 (chunk_size * of_nat k) = k * ?C"
    using b63 by (simp only: i mfu_lseek_small)
  have so: "mfu_lseek fd_pos (d + chunk_size * of_nat k) = unat d + k * ?C"
    using s63 by (simp only: i p mfu_lseek_small)
  show ?thesis
    using cs
    by (simp add: perform_copy_def Let_def si so copy_loop_once [OF C]
        padding_written_chunk [OF cs k])
qed

text \<open>
  Beyond the range of the signed offset the seek of the archive fails, and the call
  writes where it finds the descriptor.
\<close>

lemma perform_copy_failed_seek:
  assumes "chunk_size \<noteq> 0" "2^63 \<le> unat (offset op + chunk_size * chunk_index op)"
  shows "perform_copy chunk_size content fd_pos op =
     Inr \<lparr>out_pos = fd_pos,
          out_data = copy_loop (unat chunk_size) content
                       (mfu_lseek 0 (chunk_size * chunk_index op)) [],
          out_padding = padding_written chunk_size op\<rparr>"
  using assms by (simp add: perform_copy_def Let_def mfu_lseek_large)

lemma chunk_min:
  assumes "0 < c" "k < chunk_count c s"
  shows "min (s - k * c) c = (if Suc k = chunk_count c s then s - k * c else c)"
proof -
  define a where "a = k * c"
  show ?thesis
  proof (cases "Suc k = chunk_count c s")
    case True
    then have "s \<le> Suc k * c" using chunk_count_cover [OF assms(1), of s] by simp
    then have "s \<le> a + c" by (simp add: a_def)
    then have "min (s - a) c = s - a" by linarith
    with True show ?thesis by (simp add: a_def)
  next
    case False
    with assms(2) have "Suc k < chunk_count c s" by simp
    from chunk_count_le [OF assms(1) this] have "a + c \<le> s" by (simp add: a_def)
    then have "min (s - a) c = c" by linarith
    with False show ?thesis by (simp add: a_def)
  qed
qed

lemma written_range_chunk:
  assumes "0 < c" "k < chunk_count c (length content)"
  shows "written_range \<lparr>out_pos = D + k * c, out_data = take c (drop (k * c) content),
        out_padding = (if Suc k = chunk_count c (length content)
                       then replicate ((512 - length content mod 512) mod 512) 0 else [])\<rparr> =
     {D + k * c ..< (if Suc k = chunk_count c (length content)
                     then D + round_up_512 (length content) else D + Suc k * c)}"
proof -
  define a where "a = k * c"
  have kc: "a \<le> length content" unfolding a_def by (rule chunk_count_le [OF assms])
  have m: "min (length content - a) c =
      (if Suc k = chunk_count c (length content) then length content - a else c)"
    unfolding a_def by (rule chunk_min [OF assms])
  have e: "Suc k * c = a + c" by (simp add: a_def)
  show ?thesis
    unfolding e a_def [symmetric] written_range_def
    using kc by (simp add: m round_up_512_pad add.assoc)
qed

lemma data_range_chunk:
  assumes "0 < c" "k < chunk_count c (length content)"
  shows "data_range \<lparr>out_pos = D + k * c, out_data = take c (drop (k * c) content),
        out_padding = pad\<rparr> = {D + k * c ..< D + min (Suc k * c) (length content)}"
proof -
  define a where "a = k * c"
  have kc: "a \<le> length content" unfolding a_def by (rule chunk_count_le [OF assms])
  have e: "Suc k * c = a + c" by (simp add: a_def)
  have "a + min (length content - a) c = min (a + c) (length content)"
    using kc by linarith
  then show ?thesis
    unfolding e a_def [symmetric] data_range_def by (simp add: add.assoc)
qed

section \<open>Work items of empty files\<close>

lemma last_chunk_zero:
  "unat (last_chunk chunk_size 0) = 2^64 - 1"
proof -
  have "last_chunk chunk_size 0 = -1" by (simp add: last_chunk_nat)
  then show ?thesis by (simp add: unsigned_minus_1_eq_mask mask_eq_exp_minus_1)
qed

lemma perform_copy_empty:
  assumes "chunk_size \<noteq> 0" "file_size op = 0"
  shows "perform_copy chunk_size [] fd_pos op =
     Inr \<lparr>out_pos = mfu_lseek fd_pos (offset op + chunk_size * chunk_index op),
          out_data = [], out_padding = []\<rparr>"
proof -
  have C: "0 < unat chunk_size" using assms(1) by (rule unat_nonzero)
  show ?thesis using assms
    by (simp add: perform_copy_def Let_def copy_loop_once [OF C] padding_written_alt)
qed

text \<open>
  Claim C10.  For a work item whose file size is zero (and whose source file is empty,
  as listed), \<^verbatim>\<open>DTAR_perform_copy\<close> writes no payload byte and no padding byte,
  wherever the seek leaves the archive descriptor and whatever the buffer holds after
  the string.  The index of the last chunk is \<open>0 - 1\<close>, which wraps to \<open>2 ^ 64 - 1\<close>, so
  the chunk index 0 of the item is not the last chunk; the padding written (none) is
  the required \<open>(512 - 0 mod 512) mod 512 = 0\<close> bytes.
\<close>

theorem zero_size_item_writes_nothing:
  assumes "DTAR_decode_operation opstr spare = Inr op"
    and "file_size op = 0"
    and "disk (operand op) = Some content"
    and "length content = unat (file_size op)"
    and "chunk_size \<noteq> 0"
  shows "DTAR_perform_copy chunk_size disk fd_pos opstr spare =
       Inr \<lparr>out_pos = mfu_lseek fd_pos (offset op + chunk_size * chunk_index op),
            out_data = [], out_padding = []\<rparr>
     \<and> unat (last_chunk chunk_size (file_size op)) = 2^64 - 1
     \<and> (chunk_index op = 0 \<longrightarrow> chunk_index op \<noteq> last_chunk chunk_size (file_size op))
     \<and> padding_written chunk_size op = replicate ((512 - unat (file_size op) mod 512) mod 512) 0"
proof -
  from assms(2,4) have c: "content = []" by simp
  have 1: "DTAR_perform_copy chunk_size disk fd_pos opstr spare =
       Inr \<lparr>out_pos = mfu_lseek fd_pos (offset op + chunk_size * chunk_index op),
            out_data = [], out_padding = []\<rparr>"
    using assms(1,3) c perform_copy_empty [OF assms(5,2)]
    by (simp add: DTAR_perform_copy_def and_then_def)
  have 2: "unat (last_chunk chunk_size (file_size op)) = 2^64 - 1"
    unfolding assms(2) by (rule last_chunk_zero)
  have "last_chunk chunk_size (file_size op) \<noteq> 0"
  proof
    assume "last_chunk chunk_size (file_size op) = 0"
    with 2 show False by simp
  qed
  then have 3: "chunk_index op = 0 \<longrightarrow> chunk_index op \<noteq> last_chunk chunk_size (file_size op)"
    by auto
  have 4: "padding_written chunk_size op = replicate ((512 - unat (file_size op) mod 512) mod 512) 0"
    using assms(2) by (simp add: padding_written_alt)
  from 1 2 3 4 show ?thesis by blast
qed


lemma example_text:
  "operation_text COPY_DATA ''e'' 0 0 1024 = ''0:0:1024:0:1:e''"
  by (simp add: operation_text_def printf_u64_def printf_d_def
      COPY_DATA_def decimal.simps digit_char_def char_of_def bit_0)

theorem zero_size_item_writes_nothing_witness:
  "DTAR_decode_operation ''0:0:1024:0:1:e'' [] =
     Inr \<lparr>file_size = 0, chunk_index = 0, offset = 1024, code = COPY_DATA, operand = ''e''\<rparr>
   \<and> DTAR_perform_copy 256 [''e'' \<mapsto> []] 0 ''0:0:1024:0:1:e'' [] =
       Inr \<lparr>out_pos = 1024, out_data = [], out_padding = []\<rparr>
   \<and> unat (last_chunk 256 0) = 2^64 - 1"
proof -
  let ?op = "\<lparr>file_size = 0, chunk_index = 0, offset = 1024, code = COPY_DATA, operand = ''e''\<rparr>"
  have d: "DTAR_decode_operation ''0:0:1024:0:1:e'' [] = Inr ?op"
    using decode_operation_text [of "''e''" COPY_DATA 0 0 1024 "[]"] by (simp add: example_text)
  have h: "file_size ?op = 0" "[''e'' \<mapsto> []] (operand ?op) = Some []"
    "length ([] :: 8 word list) = unat (file_size ?op)" "(256 :: uint64_t) \<noteq> 0"
    by simp_all
  have p: "mfu_lseek 0 (1024 :: uint64_t) = 1024" by (simp add: mfu_lseek_def)
  from zero_size_item_writes_nothing [where disk = "[''e'' \<mapsto> []]" and content = "[]"
      and fd_pos = 0, OF d h] d p
  show ?thesis by simp
qed

section \<open>The payload of a regular file\<close>

lemma concat_chunks:
  "concat (map (\<lambda>k. take c (drop (k * c) xs)) [0 ..< n]) = take (n * c) xs"
proof (induction n)
  case 0
  then show ?case by simp
next
  case (Suc n)
  have "take (n * c + c) xs = take (n * c) xs @ take c (drop (n * c) xs)"
    by (rule take_add)
  with Suc show ?case by (simp add: add.commute)
qed

lemma sum_chunk_lengths:
  "(\<Sum>k<n. length (take c (drop (k * c) xs))) = length (take (n * c) xs)"
proof -
  have "length (concat (map (\<lambda>k. take c (drop (k * c) xs)) [0 ..< n])) =
      (\<Sum>k<n. length (take c (drop (k * c) xs)))"
    by (simp add: length_concat comp_def sum_list_sum_nth atLeast0LessThan del: length_take length_drop)
  then show ?thesis by (simp only: concat_chunks)
qed

lemma sum_last_only:
  "(\<Sum>k<n. if Suc k = n then p else 0) = (if n = 0 then 0 else (p :: nat))"
proof (cases n)
  case 0
  then show ?thesis by simp
next
  case (Suc j)
  have "(\<Sum>k<j. if k = j then p else 0) = 0" by simp
  with Suc show ?thesis by simp
qed

lemma chunk_count_pos: "0 < chunk_count c s"
  by (simp add: chunk_count_def)

lemma perform_enqueued:
  assumes q: "enqueue_item m chunk_size item eo hs = Inr q" and m: "m \<le> 2^31"
    and isfile: "item_type item = MFU_TYPE_FILE"
    and disk: "disk (item_name item) = Some content"
    and len: "length content = unat (item_size item)"
    and fit: "unat eo + unat hs + round_up_512 (unat (item_size item)) < 2^63"
    and k: "k < length q"
  shows "DTAR_perform_copy chunk_size disk fd_pos (q ! k) spare =
     Inr \<lparr>out_pos = unat eo + unat hs + k * unat chunk_size,
          out_data = take (unat chunk_size) (drop (k * unat chunk_size) content),
          out_padding = (if Suc k = length q
                         then replicate ((512 - unat (item_size item) mod 512) mod 512) 0
                         else [])\<rparr>"
proof -
  let ?S = "unat (item_size item)"
  from enqueue_item_Inr [OF q m] isfile
  have cs: "chunk_size \<noteq> 0" and n: "length q = chunk_count (unat chunk_size) ?S"
    and dec: "DTAR_decode_operation (q ! k) spare =
            Inr \<lparr>file_size = item_size item, chunk_index = of_nat k, offset = eo + hs,
                 code = COPY_DATA, operand = item_name item\<rparr>"
    using k by simp_all
  have S: "?S \<le> round_up_512 ?S" by (rule round_up_512_ge)
  have "(2::nat)^63 \<le> 2^64" by simp
  then have "unat eo + unat hs < 2^64" using fit by linarith
  then have d: "unat (eo + hs) = unat eo + unat hs" by (rule unat_add64)
  have fit': "unat (eo + hs) + ?S < 2^63" using d S fit by linarith
  have k': "k < chunk_count (unat chunk_size) ?S" using k n by simp
  from perform_copy_chunk [OF cs len k' fit', of fd_pos COPY_DATA "item_name item"]
  show ?thesis
    by (simp add: DTAR_perform_copy_def and_then_def dec disk d n)
qed

text \<open>
  Claim C5.  Take a regular file of size \<open>S\<close> whose work items were enqueued, whose
  source file has the listed size and whose data slot lies below \<open>2 ^ 63\<close>, the range
  of the signed offset of the seek.  Wherever the call finds the archive descriptor
  (\<open>pos k\<close>) and whatever its buffer holds after the string (\<open>spare k\<close>), processing
  the \<open>k\<close>-th item copies the bytes \<open>k * chunk_size ..\<close> of the file (at most
  \<open>chunk_size\<close> of them) to the same distance from the file's data offset; only the
  last item writes padding, \<open>(512 - S mod 512) mod 512\<close> zero bytes, directly after its
  data, which ends at the file's final byte.  The data of all items together is the
  file, and data and padding together are \<open>\<lceil>S / 512\<rceil> * 512\<close> bytes.
\<close>

theorem file_payload_padded:
  assumes "enqueue_item m chunk_size item eo hs = Inr q" and "m \<le> 2^31"
    and "item_type item = MFU_TYPE_FILE"
    and "disk (item_name item) = Some content"
    and "length content = unat (item_size item)"
    and "unat eo + unat hs + round_up_512 (unat (item_size item)) < 2^63"
  shows "(\<forall>k<length q. DTAR_perform_copy chunk_size disk (pos k) (q ! k) (spare k) =
            Inr \<lparr>out_pos = unat eo + unat hs + k * unat chunk_size,
                 out_data = take (unat chunk_size) (drop (k * unat chunk_size) content),
                 out_padding =
                   (if Suc k = length q
                    then replicate ((512 - unat (item_size item) mod 512) mod 512) 0
                    else [])\<rparr>)
       \<and> (\<Sum>k<length q. bytes_written (DTAR_perform_copy chunk_size disk (pos k) (q ! k) (spare k))) =
            round_up_512 (unat (item_size item))
       \<and> concat (map (\<lambda>k. take (unat chunk_size) (drop (k * unat chunk_size) content))
            [0 ..< length q]) = content
       \<and> 0 < length q
       \<and> (length q - 1) * unat chunk_size
            + length (take (unat chunk_size) (drop ((length q - 1) * unat chunk_size) content))
            = unat (item_size item)"
proof -
  let ?S = "unat (item_size item)" and ?C = "unat chunk_size"
  let ?pad = "(512 - ?S mod 512) mod 512"
  from enqueue_item_Inr [OF assms(1,2)] assms(3)
  have cs: "chunk_size \<noteq> 0" and n: "length q = chunk_count ?C ?S" by simp_all
  have C: "0 < ?C" using cs by (rule unat_nonzero)
  have pos: "0 < length q" unfolding n by (rule chunk_count_pos)
  have cover: "length content \<le> length q * ?C"
    unfolding n assms(5) by (rule chunk_count_cover [OF C])
  have 1: "\<forall>k<length q. DTAR_perform_copy chunk_size disk (pos k) (q ! k) (spare k) =
            Inr \<lparr>out_pos = unat eo + unat hs + k * ?C,
                 out_data = take ?C (drop (k * ?C) content),
                 out_padding = (if Suc k = length q then replicate ?pad 0 else [])\<rparr>"
    using perform_enqueued [where disk = disk, OF assms] by blast
  have "(\<Sum>k<length q. bytes_written (DTAR_perform_copy chunk_size disk (pos k) (q ! k) (spare k))) =
      (\<Sum>k<length q. length (take ?C (drop (k * ?C) content))
          + (if Suc k = length q then ?pad else 0))"
    using 1 by (intro sum.cong refl) (simp add: bytes_written_def del: length_take length_drop)
  also have "\<dots> = length (take (length q * ?C) content) + ?pad"
    using pos by (simp only: sum.distrib sum_chunk_lengths sum_last_only) simp
  also have "\<dots> = ?S + ?pad" using cover assms(5) by simp
  finally have 2: "(\<Sum>k<length q. bytes_written (DTAR_perform_copy chunk_size disk (pos k) (q ! k) (spare k))) =
      round_up_512 ?S"
    by (simp only: round_up_512_pad)
  have 3: "concat (map (\<lambda>k. take ?C (drop (k * ?C) content)) [0 ..< length q]) = content"
    using cover by (simp add: concat_chunks)
  have last: "length q - 1 < chunk_count ?C (length content)" "Suc (length q - 1) = chunk_count ?C (length content)"
    using pos n assms(5) by simp_all
  have le: "(length q - 1) * ?C \<le> length content"
    by (rule chunk_count_le [OF C last(1)])
  have "min (length content - (length q - 1) * ?C) ?C = length content - (length q - 1) * ?C"
    using chunk_min [OF C last(1)] last(2) by simp
  then have 4: "(length q - 1) * ?C + length (take ?C (drop ((length q - 1) * ?C) content)) = ?S"
    using le assms(5) by simp
  from 1 2 3 pos 4 show ?thesis by blast
qed


lemma enqueue_item_example:
  "enqueue_item 4096 256 ex_file 512 512 =
     Inr [''513:0:1024:0:3:d/f'', ''513:1:1024:0:3:d/f'', ''513:2:1024:0:3:d/f'']"
  by (simp add: enqueue_item_def ex_file_def
      copy_operations_def chunk_indices_def enqueue_operation_def and_then_def
      DTAR_encode_operation_def operation_text_def printf_u64_def printf_d_def
      COPY_DATA_def decimal.simps digit_char_def char_of_def bit_0 upt_conv_Cons)

theorem file_payload_padded_witness:
  "enqueue_item 4096 256 ex_file 512 512 =
     Inr [''513:0:1024:0:3:d/f'', ''513:1:1024:0:3:d/f'', ''513:2:1024:0:3:d/f'']
   \<and> (4096 :: nat) \<le> 2^31
   \<and> item_type ex_file = MFU_TYPE_FILE
   \<and> [item_name ex_file \<mapsto> replicate 513 (7 :: 8 word)] (item_name ex_file)
       = Some (replicate 513 7)
   \<and> length (replicate 513 (7 :: 8 word)) = unat (item_size ex_file)
   \<and> unat (512 :: uint64_t) + unat (512 :: uint64_t) + round_up_512 (unat (item_size ex_file)) < 2^63
   \<and> DTAR_perform_copy 256 [item_name ex_file \<mapsto> replicate 513 7] 0 ''513:2:1024:0:3:d/f'' [] =
       Inr \<lparr>out_pos = 1536, out_data = [7], out_padding = replicate 511 0\<rparr>
   \<and> (\<Sum>k<length [''513:0:1024:0:3:d/f'', ''513:1:1024:0:3:d/f'', ''513:2:1024:0:3:d/f''].
          bytes_written (DTAR_perform_copy 256 [item_name ex_file \<mapsto> replicate 513 7] 0
          ([''513:0:1024:0:3:d/f'', ''513:1:1024:0:3:d/f'', ''513:2:1024:0:3:d/f''] ! k) [])) = 1024"
proof -
  let ?disk = "[item_name ex_file \<mapsto> replicate 513 (7 :: 8 word)]"
  let ?q = "[''513:0:1024:0:3:d/f'', ''513:1:1024:0:3:d/f'', ''513:2:1024:0:3:d/f'']"
  have m: "(4096 :: nat) \<le> 2^31" by simp
  have t: "item_type ex_file = MFU_TYPE_FILE" by (simp add: ex_file_def)
  have d: "?disk (item_name ex_file) = Some (replicate 513 7)" by simp
  have l: "length (replicate 513 (7 :: 8 word)) = unat (item_size ex_file)"
    by (simp add: ex_file_def)
  have r: "round_up_512 (unat (item_size ex_file)) = 1024"
    by (simp add: ex_file_def round_up_512_def)
  have f: "unat (512 :: uint64_t) + unat (512 :: uint64_t) + round_up_512 (unat (item_size ex_file)) < 2^63"
    unfolding r by simp
  note inst = file_payload_padded [where disk = ?disk and pos = "\<lambda>k. 0" and spare = "\<lambda>k. []",
      OF enqueue_item_example m t d l f]
  from inst have "\<forall>k<length ?q. DTAR_perform_copy 256 ?disk 0 (?q ! k) [] =
            Inr \<lparr>out_pos = unat (512 :: uint64_t) + unat (512 :: uint64_t) + k * unat (256 :: uint64_t),
                 out_data = take (unat (256 :: uint64_t)) (drop (k * unat (256 :: uint64_t)) (replicate 513 7)),
                 out_padding =
                   (if Suc k = length ?q
                    then replicate ((512 - unat (item_size ex_file) mod 512) mod 512) 0
                    else [])\<rparr>"
    by (rule conjunct1)
  from this [rule_format, of 2]
  have 1: "DTAR_perform_copy 256 ?disk 0 ''513:2:1024:0:3:d/f'' [] =
       Inr \<lparr>out_pos = 1536, out_data = [7], out_padding = replicate 511 0\<rparr>"
    by (simp add: ex_file_def)
  from inst have "(\<Sum>k<length ?q. bytes_written (DTAR_perform_copy 256 ?disk 0 (?q ! k) [])) =
      round_up_512 (unat (item_size ex_file))"
    by (rule conjunct2 [THEN conjunct1])
  then have 2: "(\<Sum>k<length ?q. bytes_written (DTAR_perform_copy 256 ?disk 0 (?q ! k) [])) = 1024"
    by (simp only: r)
  from enqueue_item_example m t d l f 1 2 show ?thesis by blast
qed

section \<open>Writes of different work items\<close>

lemma sum_take_le:
  fixes f :: "'a \<Rightarrow> nat"
  assumes "a \<le> b"
  shows "sum_list (map f (take a xs)) \<le> sum_list (map f (take b xs))"
proof -
  have "take b xs = take a xs @ take (b - a) (drop a xs)"
    using assms by (metis le_add_diff_inverse take_add)
  then show ?thesis by simp
qed

lemma sum_concat_take_le:
  fixes f :: "'a \<Rightarrow> nat"
  assumes "a \<le> b"
  shows "sum_list (map f (concat (take a xss))) \<le> sum_list (map f (concat (take b xss)))"
proof -
  have "take b xss = take a xss @ take (b - a) (drop a xss)"
    using assms by (metis le_add_diff_inverse take_add)
  then show ?thesis by simp
qed

lemma entry_precedes:
  assumes "r < r' \<or> (r = r' \<and> i < i')" "r < length flists" "i < length (flists ! r)"
  shows "sum_list (map slot_bytes (entries_before flists r i)) + slot_bytes (flists ! r ! i)
     \<le> sum_list (map slot_bytes (entries_before flists r' i'))"
proof -
  have step: "sum_list (map slot_bytes (entries_before flists r i)) + slot_bytes (flists ! r ! i)
      = sum_list (map slot_bytes (entries_before flists r (Suc i)))"
    by (simp add: entries_before_Suc [OF assms(3)])
  from assms(1) show ?thesis
  proof
    assume "r = r' \<and> i < i'"
    then have "r' = r" "Suc i \<le> i'" by simp_all
    then show ?thesis unfolding step by (simp add: entries_before_mono)
  next
    assume lt: "r < r'"
    have "sum_list (map slot_bytes (entries_before flists r (Suc i)))
        \<le> sum_list (map slot_bytes (concat (take r flists))) + sum_list (map slot_bytes (flists ! r))"
      using sum_take_le [of "Suc i" "length (flists ! r)" slot_bytes "flists ! r"] assms(3)
      by (simp add: entries_before_def)
    also have "\<dots> = sum_list (map slot_bytes (concat (take (Suc r) flists)))"
      using assms(2) by (simp add: take_Suc_conv_app_nth)
    also have "\<dots> \<le> sum_list (map slot_bytes (concat (take r' flists)))"
      using lt by (intro sum_concat_take_le) simp
    also have "\<dots> \<le> sum_list (map slot_bytes (entries_before flists r' i'))"
      by (simp add: entries_before_def)
    finally show ?thesis unfolding step .
  qed
qed

lemma work_item_geometry:
  assumes fits: "archive_bytes flists < 2^63" and cs: "chunk_size \<noteq> 0"
    and v: "valid_work_item flists chunk_size r i k"
    and len: "length content = unat (item_size (flists ! r ! i))"
  shows "perform_copy chunk_size content pos (work_item flists chunk_size r i k) =
       Inr \<lparr>out_pos = data_offset flists r i + k * unat chunk_size,
            out_data = take (unat chunk_size) (drop (k * unat chunk_size) content),
            out_padding =
              (if Suc k = chunk_count (unat chunk_size) (length content)
               then replicate ((512 - length content mod 512) mod 512) 0 else [])\<rparr>"
    and "k < chunk_count (unat chunk_size) (length content)"
    and "data_offset flists r i + round_up_512 (length content) =
       sum_list (map slot_bytes (entries_before flists r i)) + slot_bytes (flists ! r ! i)"
    and "sum_list (map slot_bytes (entries_before flists r i)) \<le> data_offset flists r i"
proof -
  let ?item = "flists ! r ! i"
  let ?S = "unat (item_size ?item)" and ?C = "unat chunk_size"
  let ?O = "sum_list (map slot_bytes (entries_before flists r i))"
  from v have r: "r < length flists" and i: "i < length (flists ! r)"
    and t: "item_type ?item = MFU_TYPE_FILE"
    and k: "k < length (entry_operations flists chunk_size r i)"
    by (simp_all add: valid_work_item_def)
  have kc: "k < chunk_count ?C ?S"
    using k by (simp add: entry_operations_def length_copy_operations [OF cs])
  have p: "(2::nat)^63 \<le> 2^64" by simp
  then have fits64: "archive_bytes flists < 2^64" using fits by linarith
  have O: "unat (DTAR_offsets flists r ! i) = ?O"
    by (rule DTAR_offsets_nat [OF fits64 r i])
  have H: "DTAR_header_sizes (flists ! r) ! i = header_used ?item"
    using i t by (simp add: DTAR_header_sizes_def entry_header_size_def encode_header_def)
  have slot: "slot_bytes ?item = unat (header_used ?item) + round_up_512 ?S"
    using t by (simp add: slot_bytes_def)
  have bound: "?O + slot_bytes ?item < 2^63"
    using item_slot_bytes_le [OF r i] fits by linarith
  have S: "?S \<le> round_up_512 ?S" by (rule round_up_512_ge)
  have "unat (DTAR_offsets flists r ! i) + unat (header_used ?item) < 2^64"
    using O bound slot p by linarith
  then have D: "unat (DTAR_offsets flists r ! i + header_used ?item) = data_offset flists r i"
    by (simp add: unat_add64 data_offset_def H)
  have D': "data_offset flists r i = ?O + unat (header_used ?item)"
    by (simp add: data_offset_def H O)
  have fit: "unat (DTAR_offsets flists r ! i + header_used ?item) + ?S < 2^63"
    using D D' bound slot S by linarith
  have w: "work_item flists chunk_size r i k =
      \<lparr>file_size = item_size ?item, chunk_index = of_nat k,
       offset = DTAR_offsets flists r ! i + header_used ?item,
       code = COPY_DATA, operand = item_name ?item\<rparr>"
    using nth_copy_operations [OF cs kc] by (simp add: work_item_def entry_operations_def H)
  show "perform_copy chunk_size content pos (work_item flists chunk_size r i k) =
       Inr \<lparr>out_pos = data_offset flists r i + k * ?C,
            out_data = take ?C (drop (k * ?C) content),
            out_padding =
              (if Suc k = chunk_count ?C (length content)
               then replicate ((512 - length content mod 512) mod 512) 0 else [])\<rparr>"
    unfolding w using perform_copy_chunk [OF cs len kc fit] by (simp add: D len)
  show "k < chunk_count ?C (length content)" using kc len by simp
  show "data_offset flists r i + round_up_512 (length content) = ?O + slot_bytes ?item"
    by (simp add: D' slot len)
  show "?O \<le> data_offset flists r i" by (simp add: D')
qed


lemma written_by_work_item:
  assumes "archive_bytes flists < 2^63" "chunk_size \<noteq> 0"
    "valid_work_item flists chunk_size r i k"
    "length content = unat (item_size (flists ! r ! i))"
  shows "written_by (perform_copy chunk_size content pos (work_item flists chunk_size r i k)) =
     {data_offset flists r i + k * unat chunk_size ..<
        (if Suc k = chunk_count (unat chunk_size) (length content)
         then data_offset flists r i + round_up_512 (length content)
         else data_offset flists r i + Suc k * unat chunk_size)}"
proof -
  have C: "0 < unat chunk_size" using assms(2) by (rule unat_nonzero)
  show ?thesis
    unfolding work_item_geometry(1) [OF assms] written_by_def sum.case
    by (rule written_range_chunk [OF C work_item_geometry(2) [OF assms]])
qed

lemma data_written_by_work_item:
  assumes "archive_bytes flists < 2^63" "chunk_size \<noteq> 0"
    "valid_work_item flists chunk_size r i k"
    "length content = unat (item_size (flists ! r ! i))"
  shows "data_written_by (perform_copy chunk_size content pos (work_item flists chunk_size r i k)) =
     {data_offset flists r i + k * unat chunk_size ..<
      data_offset flists r i + min (Suc k * unat chunk_size) (length content)}"
proof -
  have C: "0 < unat chunk_size" using assms(2) by (rule unat_nonzero)
  show ?thesis
    unfolding work_item_geometry(1) [OF assms] data_written_by_def sum.case
    by (rule data_range_chunk [OF C work_item_geometry(2) [OF assms]])
qed

lemma written_by_in_slot:
  assumes "archive_bytes flists < 2^63" "chunk_size \<noteq> 0"
    "valid_work_item flists chunk_size r i k"
    "length content = unat (item_size (flists ! r ! i))"
  shows "written_by (perform_copy chunk_size content pos (work_item flists chunk_size r i k)) \<subseteq>
     {sum_list (map slot_bytes (entries_before flists r i)) ..<
      sum_list (map slot_bytes (entries_before flists r i)) + slot_bytes (flists ! r ! i)}"
proof -
  let ?C = "unat chunk_size"
  have C: "0 < ?C" using assms(2) by (rule unat_nonzero)
  note g = work_item_geometry [OF assms]
  have hi: "(if Suc k = chunk_count ?C (length content)
         then data_offset flists r i + round_up_512 (length content)
         else data_offset flists r i + Suc k * ?C)
      \<le> data_offset flists r i + round_up_512 (length content)"
  proof (cases "Suc k = chunk_count ?C (length content)")
    case True
    then show ?thesis by simp
  next
    case False
    with g(2) have "Suc k < chunk_count ?C (length content)" by simp
    from chunk_count_le [OF C this] round_up_512_ge [of "length content"] False
    show ?thesis by simp
  qed
  show ?thesis
    unfolding written_by_work_item [OF assms] using hi g(3,4)
    by (auto simp del: mult_Suc)
qed

lemma same_entry_disjoint:
  assumes "archive_bytes flists < 2^63" "chunk_size \<noteq> 0"
    "valid_work_item flists chunk_size r i k" "valid_work_item flists chunk_size r i k'"
    "length content = unat (item_size (flists ! r ! i))"
    "length content' = unat (item_size (flists ! r ! i))"
    "k < k'"
  shows "written_by (perform_copy chunk_size content pos (work_item flists chunk_size r i k)) \<inter>
     written_by (perform_copy chunk_size content' pos' (work_item flists chunk_size r i k')) = {}"
proof -
  let ?C = "unat chunk_size"
  note g' = work_item_geometry [OF assms(1,2,4,6)]
  have l: "length content = length content'" using assms(5,6) by simp
  from assms(7) g'(2) have nl: "Suc k \<noteq> chunk_count ?C (length content)"
    unfolding l by linarith
  from assms(7) have "Suc k * ?C \<le> k' * ?C" by (intro mult_le_mono1) simp
  then show ?thesis
    unfolding written_by_work_item [OF assms(1,2,3,5)] written_by_work_item [OF assms(1,2,4,6)]
    using nl by (auto simp del: mult_Suc)
qed

lemma earlier_entry_disjoint:
  assumes "archive_bytes flists < 2^63" "chunk_size \<noteq> 0"
    "valid_work_item flists chunk_size r i k" "valid_work_item flists chunk_size r' i' k'"
    "length content = unat (item_size (flists ! r ! i))"
    "length content' = unat (item_size (flists ! r' ! i'))"
    "r < r' \<or> (r = r' \<and> i < i')"
  shows "written_by (perform_copy chunk_size content pos (work_item flists chunk_size r i k)) \<inter>
     written_by (perform_copy chunk_size content' pos' (work_item flists chunk_size r' i' k')) = {}"
proof -
  from assms(3) have r: "r < length flists" "i < length (flists ! r)"
    by (simp_all add: valid_work_item_def)
  from entry_precedes [OF assms(7) r]
    written_by_in_slot [OF assms(1,2,3,5)] written_by_in_slot [OF assms(1,2,4,6)]
  show ?thesis by fastforce
qed


lemma written_is_data_and_padding:
  assumes "archive_bytes flists < 2^63" "chunk_size \<noteq> 0"
    "valid_work_item flists chunk_size r i k"
    "length content = unat (item_size (flists ! r ! i))"
  shows "written_by (perform_copy chunk_size content pos (work_item flists chunk_size r i k)) =
     data_written_by (perform_copy chunk_size content pos (work_item flists chunk_size r i k))
     \<union> (if Suc k = chunk_count (unat chunk_size) (length content)
         then {data_offset flists r i + length content ..<
               data_offset flists r i + round_up_512 (length content)}
         else {})"
proof -
  let ?C = "unat chunk_size"
  have C: "0 < ?C" using assms(2) by (rule unat_nonzero)
  note g = work_item_geometry [OF assms]
  have kc: "k * ?C \<le> length content" by (rule chunk_count_le [OF C g(2)])
  show ?thesis
  proof (cases "Suc k = chunk_count ?C (length content)")
    case True
    then have "length content \<le> Suc k * ?C"
      using chunk_count_cover [OF C, of "length content"] by simp
    then have "min (Suc k * ?C) (length content) = length content" by simp
    then show ?thesis
      unfolding written_by_work_item [OF assms] data_written_by_work_item [OF assms]
      using True kc round_up_512_ge [of "length content"] by (auto simp del: mult_Suc)
  next
    case False
    with g(2) have "Suc k < chunk_count ?C (length content)" by simp
    from chunk_count_le [OF C this]
    have "min (Suc k * ?C) (length content) = Suc k * ?C" by simp
    then show ?thesis
      unfolding written_by_work_item [OF assms] data_written_by_work_item [OF assms]
      using False by (simp del: mult_Suc)
  qed
qed

text \<open>
  Claim C1, as amended.  Let the archive be shorter than \<open>2 ^ 63\<close> bytes (the range of
  the signed offset of the seek), the chunk size be positive and the source files have
  their listed sizes.  For two different work items (rank, entry, chunk) of a run, the
  archive bytes that processing them writes are disjoint, wherever the two calls find
  the archive descriptor.  The file data of an item goes to
  \<open>[data_offset + chunk_index * chunk_size,
    data_offset + min((chunk_index + 1) * chunk_size, file_size))\<close>;
  the item of the last chunk writes in addition the padding
  \<open>[data_offset + file_size, data_offset + \<lceil>file_size / 512\<rceil> * 512)\<close>, and no other item
  writes anything else.
\<close>

theorem copy_writes_disjoint:
  assumes "archive_bytes flists < 2^63" and "chunk_size \<noteq> 0"
    and "valid_work_item flists chunk_size r i k"
    and "valid_work_item flists chunk_size r' i' k'"
    and "(r, i, k) \<noteq> (r', i', k')"
    and "length content = unat (item_size (flists ! r ! i))"
    and "length content' = unat (item_size (flists ! r' ! i'))"
  shows "written_by (perform_copy chunk_size content pos (work_item flists chunk_size r i k)) \<inter>
         written_by (perform_copy chunk_size content' pos' (work_item flists chunk_size r' i' k')) = {}
     \<and> data_written_by (perform_copy chunk_size content pos (work_item flists chunk_size r i k)) =
         {data_offset flists r i + k * unat chunk_size ..<
          data_offset flists r i + min ((k + 1) * unat chunk_size) (length content)}
     \<and> written_by (perform_copy chunk_size content pos (work_item flists chunk_size r i k)) =
         data_written_by (perform_copy chunk_size content pos (work_item flists chunk_size r i k))
         \<union> (if Suc k = chunk_count (unat chunk_size) (length content)
             then {data_offset flists r i + length content ..<
                   data_offset flists r i + round_up_512 (length content)}
             else {})"
proof -
  let ?W = "written_by (perform_copy chunk_size content pos (work_item flists chunk_size r i k))"
  let ?W' = "written_by (perform_copy chunk_size content' pos' (work_item flists chunk_size r' i' k'))"
  have 1: "?W \<inter> ?W' = {}"
  proof -
    consider "r < r' \<or> (r = r' \<and> i < i')" | "r' < r \<or> (r' = r \<and> i' < i)"
      | "r = r'" "i = i'" "k < k'" | "r = r'" "i = i'" "k' < k"
      using assms(5) by force
    then show ?thesis
    proof cases
      case 1
      then show ?thesis by (rule earlier_entry_disjoint [OF assms(1,2,3,4,6,7)])
    next
      case 2
      then have "?W' \<inter> ?W = {}" by (rule earlier_entry_disjoint [OF assms(1,2,4,3,7,6)])
      then show ?thesis by (simp only: Int_commute)
    next
      case 3
      with assms(4,7) have v: "valid_work_item flists chunk_size r i k'"
        and l: "length content' = unat (item_size (flists ! r ! i))" by simp_all
      from same_entry_disjoint [OF assms(1,2,3) v assms(6) l 3(3)] 3(1,2)
      show ?thesis by simp
    next
      case 4
      with assms(4,7) have v: "valid_work_item flists chunk_size r i k'"
        and l: "length content' = unat (item_size (flists ! r ! i))" by simp_all
      from same_entry_disjoint [OF assms(1,2) v assms(3) l assms(6) 4(3)] 4(1,2)
      show ?thesis by (simp add: Int_commute)
    qed
  qed
  have 2: "data_written_by (perform_copy chunk_size content pos (work_item flists chunk_size r i k)) =
         {data_offset flists r i + k * unat chunk_size ..<
          data_offset flists r i + min ((k + 1) * unat chunk_size) (length content)}"
    using data_written_by_work_item [OF assms(1,2,3,6)] by (simp del: mult_Suc)
  from 1 2 written_is_data_and_padding [OF assms(1,2,3,6)] show ?thesis by blast
qed


lemma ex_file_fields:
  "item_type ex_file = MFU_TYPE_FILE" "item_size ex_file = 513" "header_used ex_file = 512"
  by (simp_all add: ex_file_def)

lemma ex_work_items:
  "valid_work_item [[ex_dir, ex_file], [ex_link]] 256 0 1 0"
  "valid_work_item [[ex_dir, ex_file], [ex_link]] 256 0 1 2"
  "data_offset [[ex_dir, ex_file], [ex_link]] 0 1 = 1024"
  "length (replicate 513 (7 :: 8 word)) = unat (item_size ([[ex_dir, ex_file], [ex_link]] ! 0 ! 1))"
  "chunk_count 256 513 = 3"
  "round_up_512 513 = 1024"
  by (simp_all add: valid_work_item_def entry_operations_def length_copy_operations
      data_offset_def ex_values DTAR_header_sizes_def entry_header_size_def encode_header_def
      chunk_count_def ceil_div_def round_up_512_def ex_file_fields)

text \<open>
  Claim C1 as stated gives the written range of every item as its data range.  For the
  third chunk of a 513-byte file with 256-byte chunks, whose data starts at 1024, the
  call writes one data byte at 1536 and then 511 zero bytes: the written range is
  \<open>[1536, 2048)\<close>, not \<open>[1536, 1537)\<close>.
\<close>

theorem written_range_counterexample:
  "written_by (perform_copy 256 (replicate 513 7) 0
       (work_item [[ex_dir, ex_file], [ex_link]] 256 0 1 2)) = {1536 ..< 2048}
   \<and> written_by (perform_copy 256 (replicate 513 7) 0
       (work_item [[ex_dir, ex_file], [ex_link]] 256 0 1 2)) \<noteq>
     {data_offset [[ex_dir, ex_file], [ex_link]] 0 1 + 2 * unat (256 :: uint64_t) ..<
      data_offset [[ex_dir, ex_file], [ex_link]] 0 1
        + min ((2 + 1) * unat (256 :: uint64_t))
              (unat (item_size ([[ex_dir, ex_file], [ex_link]] ! 0 ! 1)))}"
proof -
  have f: "archive_bytes [[ex_dir, ex_file], [ex_link]] < 2^63" by (simp add: ex_values)
  have c: "(256 :: uint64_t) \<noteq> 0" by simp
  have w: "written_by (perform_copy 256 (replicate 513 7) 0
       (work_item [[ex_dir, ex_file], [ex_link]] 256 0 1 2)) = {1536 ..< 2048}"
    unfolding written_by_work_item [OF f c ex_work_items(2,4)] ex_work_items(3)
    by (simp add: ex_work_items(5,6))
  have "(1536 :: nat) \<in> {1536 ..< 2048}" "(1537 :: nat) \<in> {1536 ..< 2048}" by simp_all
  moreover have "(1537 :: nat) \<notin> {1024 + 2 * 256 ..< 1024 + min ((2 + 1) * 256) 513}" by simp
  ultimately have "{1536 ..< 2048} \<noteq> {1024 + 2 * 256 ..< 1024 + min ((2 + 1) * 256) (513 :: nat)}"
    by blast
  then show ?thesis unfolding w ex_work_items(3) by (simp add: ex_file_fields)
qed

theorem copy_writes_disjoint_witness:
  "archive_bytes [[ex_dir, ex_file], [ex_link]] < 2^63 \<and> (256 :: uint64_t) \<noteq> 0
   \<and> valid_work_item [[ex_dir, ex_file], [ex_link]] 256 0 1 0
   \<and> valid_work_item [[ex_dir, ex_file], [ex_link]] 256 0 1 2
   \<and> (0 :: nat, 1 :: nat, 0 :: nat) \<noteq> (0, 1, 2)
   \<and> length (replicate 513 (7 :: 8 word)) = unat (item_size ([[ex_dir, ex_file], [ex_link]] ! 0 ! 1))
   \<and> written_by (perform_copy 256 (replicate 513 7) 0
         (work_item [[ex_dir, ex_file], [ex_link]] 256 0 1 0)) \<inter>
       written_by (perform_copy 256 (replicate 513 7) 0
         (work_item [[ex_dir, ex_file], [ex_link]] 256 0 1 2)) = {}
   \<and> data_written_by (perform_copy 256 (replicate 513 7) 0
         (work_item [[ex_dir, ex_file], [ex_link]] 256 0 1 0)) = {1024 ..< 1280}"
proof -
  have f: "archive_bytes [[ex_dir, ex_file], [ex_link]] < 2^63" by (simp add: ex_values)
  have c: "(256 :: uint64_t) \<noteq> 0" by simp
  have n: "(0 :: nat, 1 :: nat, 0 :: nat) \<noteq> (0, 1, 2)" by simp
  note inst = copy_writes_disjoint [OF f c ex_work_items(1,2) n ex_work_items(4,4)]
  from inst have 1: "written_by (perform_copy 256 (replicate 513 7) 0
         (work_item [[ex_dir, ex_file], [ex_link]] 256 0 1 0)) \<inter>
       written_by (perform_copy 256 (replicate 513 7) 0
         (work_item [[ex_dir, ex_file], [ex_link]] 256 0 1 2)) = {}"
    by (rule conjunct1)
  from inst have 2: "data_written_by (perform_copy 256 (replicate 513 7) 0
         (work_item [[ex_dir, ex_file], [ex_link]] 256 0 1 0)) = {1024 ..< 1280}"
    unfolding ex_work_items(3) by simp
  from f c ex_work_items(1,2,4) n 1 2 show ?thesis by blast
qed

section \<open>The index file\<close>

subsection \<open>Writes at positions\<close>

































subsection \<open>When there is no index\<close>





section \<open>What create and extract return\<close>

lemma create_returns_success: "mfu_flist_archive_create flist index_written = MFU_SUCCESS"
  by (simp add: mfu_flist_archive_create_def mfu_flist_archive_create_libcircle_def discard_def)

lemma extract_returns_success:
  "mfu_flist_archive_extract index_read index_scanned flist_extracted files_extracted
     index_written = MFU_SUCCESS"
  by (simp add: mfu_flist_archive_extract_def discard_def)

text \<open>
  Claim C2 has create and extract return failure whenever a phase met an error.  The
  code returns \<^verbatim>\<open>MFU_SUCCESS\<close> then too.  Create of a list with a symlink that cannot be
  read: \<^verbatim>\<open>encode_header\<close> reports \<^verbatim>\<open>MFU_FAILURE\<close> for it, the index is not written, and
  the call returns \<^verbatim>\<open>MFU_SUCCESS\<close>.  Extract with an index, where the metadata pass and
  the extraction pass both report \<^verbatim>\<open>MFU_FAILURE\<close>: the call returns \<^verbatim>\<open>MFU_SUCCESS\<close>.
\<close>

theorem archive_failure_not_returned:
  "header_probes [ex_dir, ex_unreadable_link] = [MFU_SUCCESS, MFU_FAILURE]
   \<and> mfu_flist_archive_create [ex_dir, ex_unreadable_link] False = MFU_SUCCESS
   \<and> mfu_flist_archive_extract MFU_SUCCESS MFU_SUCCESS MFU_FAILURE MFU_FAILURE False =
       MFU_SUCCESS"
proof -
  have "header_probes [ex_dir, ex_unreadable_link] = [MFU_SUCCESS, MFU_FAILURE]"
    by (simp add: header_probes_def encode_header_def ex_dir_def ex_unreadable_link_def)
  then show ?thesis
    by (simp only: create_returns_success extract_returns_success simp_thms)
qed
end
